theory Spec2Isabelle
  imports Main
begin

section \<open>Package time\<close>

text \<open>
  The planner builds instants with \<^verbatim>\<open>time.Date(y, m, d, 0, 0, 0, 0, time.UTC)\<close> and
  moves them with \<^verbatim>\<open>AddDate\<close>. Such a \<^verbatim>\<open>Time\<close> carries no monotonic clock
  reading, zero nanoseconds and the location UTC; what is left of it is the field
  \<^verbatim>\<open>ext\<close>, the seconds since 1 January of year 1 as an \<^verbatim>\<open>int64\<close>. An instant is
  modelled by that number. The zero \<^verbatim>\<open>Time\<close> is 0.

  Go's \<^verbatim>\<open>int\<close> and \<^verbatim>\<open>int64\<close> (64 bits, two's complement) and \<^verbatim>\<open>uint64\<close> are
  written as integers with the wrap-around spelled out: \<open>i64\<close> and \<open>u64\<close> reduce the
  exact result of an operation to the machine's range. The functions follow the source of
  package \<^verbatim>\<open>time\<close> statement by statement: \<^verbatim>\<open>norm\<close>, \<^verbatim>\<open>isLeap\<close>,
  \<^verbatim>\<open>daysBefore\<close>, \<^verbatim>\<open>daysSinceEpoch\<close>, \<^verbatim>\<open>Date\<close>, \<^verbatim>\<open>Time.abs\<close>,
  \<^verbatim>\<open>absDate\<close>, \<^verbatim>\<open>absClock\<close>, \<^verbatim>\<open>absWeekday\<close>, \<^verbatim>\<open>daysIn\<close>,
  \<^verbatim>\<open>AddDate\<close> and \<^verbatim>\<open>After\<close>. The nanosecond argument of \<^verbatim>\<open>Date\<close> is always 0
  here and is left out (\<^verbatim>\<open>norm(sec, 0, 1e9)\<close> changes nothing).
\<close>

type_synonym Time = int

definition u64 :: "int \<Rightarrow> int" where
  "u64 x = x mod 18446744073709551616"

definition i64 :: "int \<Rightarrow> int" where
  "i64 x = (x + 9223372036854775808) mod 18446744073709551616 - 9223372036854775808"

definition absoluteZeroYear :: int where
  "absoluteZeroYear = - 292277022399"

text \<open>
  \<^verbatim>\<open>absoluteToInternal = (absoluteZeroYear - internalYear) * 365.2425 * secondsPerDay\<close> and
  \<^verbatim>\<open>unixToInternal = (1969*365 + 1969/4 - 1969/100 + 1969/400) * secondsPerDay\<close>, as the
  compiler evaluates them.
\<close>

definition absoluteToInternal :: int where
  "absoluteToInternal = - 9223371966579724800"

definition internalToAbsolute :: int where
  "internalToAbsolute = - absoluteToInternal"

definition unixToInternal :: int where
  "unixToInternal = 62135596800"

definition internalToUnix :: int where
  "internalToUnix = - unixToInternal"

definition isLeap :: "int \<Rightarrow> bool" where
  "isLeap year = (year mod 4 = 0 \<and> (year mod 100 \<noteq> 0 \<or> year mod 400 = 0))"

definition daysBefore :: "int list" where
  "daysBefore = [0, 31, 59, 90, 120, 151, 181, 212, 243, 273, 304, 334, 365]"

text \<open>
  \<^verbatim>\<open>norm(hi, lo, base)\<close> carries the overflow of \<open>lo\<close> into \<open>hi\<close>. Both divisions have a
  dividend that is not negative, where Go's truncating \<^verbatim>\<open>/\<close> is \<open>div\<close>.
\<close>

definition norm :: "int \<Rightarrow> int \<Rightarrow> int \<Rightarrow> int \<times> int" where
  "norm hi lo base =
     (let (hi1, lo1) =
            (if lo < 0
             then (let n = i64 (i64 (i64 (- lo) - 1) div base + 1)
                   in (i64 (hi - n), i64 (lo + i64 (n * base))))
             else (hi, lo))
      in if lo1 \<ge> base
         then (let n = lo1 div base in (i64 (hi1 + n), i64 (lo1 - i64 (n * base))))
         else (hi1, lo1))"

text \<open>
  \<^verbatim>\<open>daysSinceEpoch\<close>: the days from 1 January of the absolute zero year to 1 January of
  \<open>year\<close>, in \<^verbatim>\<open>uint64\<close>: whole 400-, 100-, 4- and 1-year cycles.
\<close>

definition daysSinceEpoch :: "int \<Rightarrow> int" where
  "daysSinceEpoch year =
     (let y = u64 (i64 (i64 year - absoluteZeroYear));
          n400 = y div 400; y1 = u64 (y - u64 (400 * n400));
          d1 = u64 (146097 * n400);
          n100 = y1 div 100; y2 = u64 (y1 - u64 (100 * n100));
          d2 = u64 (d1 + u64 (36524 * n100));
          n4 = y2 div 4; y3 = u64 (y2 - u64 (4 * n4));
          d3 = u64 (d2 + u64 (1461 * n4))
      in u64 (d3 + u64 (365 * y3)))"

text \<open>
  \<^verbatim>\<open>time.Date\<close> in UTC. The month may lie outside 1..12 and overflows into the year; the
  day may lie outside the month and counts on from the first of the month. The seconds are
  computed in \<^verbatim>\<open>uint64\<close> from the absolute zero year and wrap silently.
\<close>

definition Date :: "int \<Rightarrow> int \<Rightarrow> int \<Rightarrow> int \<Rightarrow> int \<Rightarrow> int \<Rightarrow> Time" where
  "Date year month day hour mn sec =
     (let m = i64 (month - 1);
          (year1, m1) = norm year m 12;
          month1 = i64 (m1 + 1);
          (mn1, sec1) = norm mn sec 60;
          (hour1, mn2) = norm hour mn1 60;
          (day1, hour2) = norm day hour1 24;
          d = daysSinceEpoch year1;
          d1 = u64 (d + u64 (daysBefore ! nat (month1 - 1)));
          d2 = (if isLeap year1 \<and> month1 \<ge> 3 then u64 (d1 + 1) else d1);
          d3 = u64 (d2 + u64 (i64 (day1 - 1)));
          ab = u64 (d3 * 86400);
          ab1 = u64 (ab + u64 (i64 (i64 (i64 (hour2 * 3600) + i64 (mn2 * 60)) + sec1)));
          unix = i64 (i64 ab1 + (absoluteToInternal + internalToUnix))
      in i64 (unix + unixToInternal))"

text \<open>
  The only form in which main.go calls \<^verbatim>\<open>time.Date\<close>:
  \<^verbatim>\<open>time.Date(year, month, day, 0, 0, 0, 0, time.UTC)\<close>.
\<close>

abbreviation DateUTC :: "int \<Rightarrow> int \<Rightarrow> int \<Rightarrow> Time" where
  "DateUTC year month day \<equiv> Date year month day 0 0 0"

text \<open>\<^verbatim>\<open>Time.abs\<close>: the seconds since 1 January of the absolute zero year, a \<^verbatim>\<open>uint64\<close>.\<close>

definition Time_abs :: "Time \<Rightarrow> int" where
  "Time_abs t = u64 (i64 (i64 (t + internalToUnix) + (unixToInternal + internalToAbsolute)))"

text \<open>
  \<^verbatim>\<open>absDate\<close> with \<^verbatim>\<open>full = true\<close>, in three parts: the year and the day of the year
  (\<open>absYear\<close>), the month estimate that takes every month to have 31 days and corrects it
  (\<open>monthDay\<close>), and the leap day. \<^verbatim>\<open>n >> 2\<close> is \<open>n div 4\<close>.
\<close>

definition absYear :: "int \<Rightarrow> int \<times> int" where
  "absYear ab =
     (let d = ab div 86400;
          n = d div 146097; y = u64 (400 * n); d0 = u64 (d - u64 (146097 * n));
          n1 = d0 div 36524; n1' = u64 (n1 - n1 div 4); y1 = u64 (y + u64 (100 * n1'));
          d1 = u64 (d0 - u64 (36524 * n1'));
          n2 = d1 div 1461; y2 = u64 (y1 + u64 (4 * n2)); d2 = u64 (d1 - u64 (1461 * n2));
          n3 = d2 div 365; n3' = u64 (n3 - n3 div 4); y3 = u64 (y2 + n3');
          d3 = u64 (d2 - u64 (365 * n3'))
      in (i64 (i64 y3 + absoluteZeroYear), d3))"

definition monthDay :: "int \<Rightarrow> int \<times> int" where
  "monthDay day =
     (let month = day div 31;
          end = daysBefore ! nat (month + 1);
          (month', begin) = (if day \<ge> end then (month + 1, end) else (month, daysBefore ! nat month))
      in (month' + 1, day - begin + 1))"

definition absDate :: "int \<Rightarrow> int \<times> int \<times> int" where
  "absDate ab =
     (let (year, yday) = absYear ab in
      if isLeap year \<and> yday = 31 + 29 - 1 then (year, 2, 29)
      else
        let day = (if isLeap year \<and> yday > 31 + 29 - 1 then yday - 1 else yday);
            (month, day') = monthDay day
        in (year, month, day'))"

definition absClock :: "int \<Rightarrow> int \<times> int \<times> int" where
  "absClock ab =
     (let sec = ab mod 86400;
          hour = sec div 3600; sec1 = sec - hour * 3600;
          mn = sec1 div 60; sec2 = sec1 - mn * 60
      in (hour, mn, sec2))"

text \<open>Sunday is 0 and Monday is 1; 1 January of the absolute zero year is a Monday.\<close>

definition Monday :: int where
  "Monday = 1"

definition absWeekday :: "int \<Rightarrow> int" where
  "absWeekday ab = (u64 (ab + Monday * 86400) mod 604800) div 86400"

definition daysIn :: "int \<Rightarrow> int \<Rightarrow> int" where
  "daysIn m year =
     (if m = 2 \<and> isLeap year then 29
      else daysBefore ! nat m - daysBefore ! nat (m - 1))"

definition Time_Date :: "Time \<Rightarrow> int \<times> int \<times> int" where
  "Time_Date t = absDate (Time_abs t)"

definition Time_Clock :: "Time \<Rightarrow> int \<times> int \<times> int" where
  "Time_Clock t = absClock (Time_abs t)"

definition Time_Year :: "Time \<Rightarrow> int" where
  "Time_Year t = (case Time_Date t of (y, m, d) \<Rightarrow> y)"

definition Time_Month :: "Time \<Rightarrow> int" where
  "Time_Month t = (case Time_Date t of (y, m, d) \<Rightarrow> m)"

definition Time_Day :: "Time \<Rightarrow> int" where
  "Time_Day t = (case Time_Date t of (y, m, d) \<Rightarrow> d)"

definition Weekday :: "Time \<Rightarrow> int" where
  "Weekday t = absWeekday (Time_abs t)"

text \<open>
  \<^verbatim>\<open>t.AddDate(years, months, days)\<close> takes the instant apart into its date and its clock
  and goes back through \<^verbatim>\<open>Date\<close>.
\<close>

definition AddDate :: "Time \<Rightarrow> int \<Rightarrow> int \<Rightarrow> int \<Rightarrow> Time" where
  "AddDate t years months days =
     (case Time_Date t of (year, month, day) \<Rightarrow>
      case Time_Clock t of (hour, mn, sec) \<Rightarrow>
        Date (i64 (year + years)) (i64 (month + months)) (i64 (day + days)) hour mn sec)"

text \<open>\<^verbatim>\<open>t.After(u)\<close> compares the two \<^verbatim>\<open>int64\<close> second counts; the nanoseconds are equal.\<close>

definition After :: "Time \<Rightarrow> Time \<Rightarrow> bool" where
  "After t u = (u < t)"

subsection \<open>Formatting\<close>

text \<open>
  \<^verbatim>\<open>appendInt\<close> of package \<^verbatim>\<open>time\<close> (decimal, zero-padded to a width, sign first),
  the verbs \<^verbatim>\<open>%d\<close> and \<^verbatim>\<open>%2d\<close> of \<^verbatim>\<open>fmt.Sprintf\<close>, the month and weekday
  names, and \<^verbatim>\<open>Time.Format\<close> for the four layouts the planner uses.
\<close>

definition digit :: "nat \<Rightarrow> char" where
  "digit n = char_of (48 + n)"

fun itoa :: "nat \<Rightarrow> string" where
  "itoa n = (if n < 10 then [digit n] else itoa (n div 10) @ [digit (n mod 10)])"

declare itoa.simps [simp del]

definition appendInt :: "int \<Rightarrow> nat \<Rightarrow> string" where
  "appendInt x width =
     (let s = itoa (nat \<bar>x\<bar>)
      in (if x < 0 then ''-'' else []) @ replicate (width - length s) (CHR ''0'') @ s)"

definition Sprintf_d :: "int \<Rightarrow> string" where
  "Sprintf_d x = (if x < 0 then ''-'' else []) @ itoa (nat \<bar>x\<bar>)"

definition Sprintf_2d :: "int \<Rightarrow> string" where
  "Sprintf_2d x = (let s = Sprintf_d x in replicate (2 - length s) (CHR '' '') @ s)"

definition longMonthNames :: "string list" where
  "longMonthNames = [''January'', ''February'', ''March'', ''April'', ''May'', ''June'', ''July'',
     ''August'', ''September'', ''October'', ''November'', ''December'']"

definition shortMonthNames :: "string list" where
  "shortMonthNames = [''Jan'', ''Feb'', ''Mar'', ''Apr'', ''May'', ''Jun'', ''Jul'', ''Aug'', ''Sep'',
     ''Oct'', ''Nov'', ''Dec'']"

definition shortDayNames :: "string list" where
  "shortDayNames = [''Sun'', ''Mon'', ''Tue'', ''Wed'', ''Thu'', ''Fri'', ''Sat'']"

definition Month_String :: "int \<Rightarrow> string" where
  "Month_String m =
     (if 1 \<le> m \<and> m \<le> 12 then longMonthNames ! nat (m - 1)
      else ''%!Month('' @ Sprintf_d m @ '')'')"

text \<open>Layout \<^verbatim>\<open>"2006-01-02"\<close>, the key of the day registry.\<close>

definition Format_ISO :: "Time \<Rightarrow> string" where
  "Format_ISO t =
     (case Time_Date t of (y, m, d) \<Rightarrow> appendInt y 4 @ ''-'' @ appendInt m 2 @ ''-'' @ appendInt d 2)"

text \<open>Layout \<^verbatim>\<open>"Jan 02"\<close>.\<close>

definition Format_Jan_02 :: "Time \<Rightarrow> string" where
  "Format_Jan_02 t =
     (case Time_Date t of (y, m, d) \<Rightarrow> shortMonthNames ! nat (m - 1) @ '' '' @ appendInt d 2)"

text \<open>Layout \<^verbatim>\<open>"Mon Jan 02"\<close>.\<close>

definition Format_Mon_Jan_02 :: "Time \<Rightarrow> string" where
  "Format_Mon_Jan_02 t = shortDayNames ! nat (Weekday t) @ '' '' @ Format_Jan_02 t"

text \<open>Layout \<^verbatim>\<open>"Mon, Jan 02, 2006"\<close>.\<close>

definition Format_Long :: "Time \<Rightarrow> string" where
  "Format_Long t =
     (case Time_Date t of (y, m, d) \<Rightarrow>
        shortDayNames ! nat (Weekday t) @ '', '' @ Format_Jan_02 t @ '', '' @ appendInt y 4)"

section \<open>Outcomes of a call\<close>

text \<open>
  A Go call returns, panics (an index out of range) or never returns (a loop that does not
  end). The three are kept apart.
\<close>

datatype 'a outcome = Returns 'a | Panics | Hangs

definition andThen :: "'a outcome \<Rightarrow> ('a \<Rightarrow> 'b outcome) \<Rightarrow> 'b outcome" where
  "andThen x f = (case x of Returns v \<Rightarrow> f v | Panics \<Rightarrow> Panics | Hangs \<Rightarrow> Hangs)"

text \<open>A \<^verbatim>\<open>for ... range\<close> loop whose body may panic or hang.\<close>

primrec forEach :: "'a list \<Rightarrow> ('s \<Rightarrow> 'a \<Rightarrow> 's outcome) \<Rightarrow> 's \<Rightarrow> 's outcome" where
  "forEach [] f s = Returns s"
| "forEach (x # xs) f s = andThen (f s x) (forEach xs f)"

text \<open>Indexing a slice or an array panics out of range.\<close>

definition index :: "'a list \<Rightarrow> int \<Rightarrow> 'a outcome" where
  "index xs i = (if 0 \<le> i \<and> i < int (length xs) then Returns (xs ! nat i) else Panics)"

text \<open>Reading a map at a missing key yields the zero value: 0, or the nil slice.\<close>

definition lookupInt :: "('k \<rightharpoonup> int) \<Rightarrow> 'k \<Rightarrow> int" where
  "lookupInt m k = (case m k of None \<Rightarrow> 0 | Some v \<Rightarrow> v)"

definition lookupSlice :: "('k \<rightharpoonup> 'a list) \<Rightarrow> 'k \<Rightarrow> 'a list" where
  "lookupSlice m k = (case m k of None \<Rightarrow> [] | Some v \<Rightarrow> v)"

section \<open>The calendar helper of main.go\<close>

text \<open>
  The inner loop of \<^verbatim>\<open>monthWeeks\<close> fills a slice of seven instants, advancing the cursor
  by one day each time. The slice comes from \<^verbatim>\<open>make([]time.Time, 7)\<close>: seven zero
  instants.
\<close>

function weekFill :: "nat \<Rightarrow> Time list \<Rightarrow> Time \<Rightarrow> Time list \<times> Time" where
  "weekFill i week cur =
     (if i < 7 then weekFill (Suc i) (week[i := cur]) (AddDate cur 0 0 1) else (week, cur))"
  by pat_completeness auto
termination
  by (relation "measure (\<lambda>(i, week, cur). 7 - i)") auto

declare weekFill.simps [simp del]

text \<open>
  The outer loop is \<^verbatim>\<open>for { ... if cur.After(last) && cur.Weekday() == time.Monday { break } }\<close>.
  Nothing in its text bounds it, so it is a partial function: \<open>None\<close> stands for a loop
  that never breaks.
\<close>

partial_function (option) weeksLoop :: "Time \<Rightarrow> Time \<Rightarrow> Time list list \<Rightarrow> Time list list option" where
  "weeksLoop lastT cur weeks =
     (case weekFill 0 (replicate 7 0) cur of
        (week, cur') \<Rightarrow>
          let weeks' = weeks @ [week]
          in if After cur' lastT \<and> Weekday cur' = Monday then Some weeks'
             else weeksLoop lastT cur' weeks')"

declare weeksLoop.simps [code]

definition monthWeeks :: "int \<Rightarrow> int \<Rightarrow> Time list list option" where
  "monthWeeks year month =
     (let first = DateUTC year month 1;
          lastT = DateUTC year (month + 1) 0;
          offset = (Weekday first + 6) mod 7;
          start = AddDate first 0 0 (- offset)
      in weeksLoop lastT start [])"

section \<open>The slice of fpdf the planner uses\<close>

text \<open>
  Of package \<^verbatim>\<open>fpdf\<close> the model keeps what the navigation graph is made of: the page
  counter (\<^verbatim>\<open>AddPage\<close>, \<^verbatim>\<open>PageNo\<close>), the anchors (\<^verbatim>\<open>AddLink\<close> hands out
  1, 2, 3, ...; \<^verbatim>\<open>SetLink\<close> binds an anchor to a page and panics on an anchor that was
  never handed out), the clickable regions (\<^verbatim>\<open>Link\<close>), the text cells with the text
  colour in force (\<^verbatim>\<open>CellFormat\<close>, \<^verbatim>\<open>SetTextColor\<close>) and the number of dots
  (\<^verbatim>\<open>Circle\<close>). Calls that only move the cursor or set fonts, margins and line styles
  are left out, and so are the library's error state and its automatic page breaks.

  Coordinates are \<^verbatim>\<open>float64\<close> and are not modelled. A cell or a region is named by the
  place in main.go that draws it; a region keeps its width and height where the source gives
  them as literals.
\<close>

datatype site = Title | SubTitle | NavBack | NavHome | GridCell nat int | WeekRow | DayRow | DateRow

datatype op =
    AddPage
  | SetLink int nat
  | Cell site "nat \<times> nat \<times> nat" string
  | Link site "int option" int int

record 'f Fpdf =
  pdfW :: 'f
  pdfH :: 'f
  pdfPage :: nat
  pdfLinks :: nat
  pdfTextColor :: "nat \<times> nat \<times> nat"
  pdfDots :: nat
  pdfLog :: "op list"

text \<open>The \<^verbatim>\<open>float64\<close> operations of \<^verbatim>\<open>dotGrid\<close>, and the conversion of an integer constant.\<close>

record 'f float64 =
  fadd :: "'f \<Rightarrow> 'f \<Rightarrow> 'f"
  fsub :: "'f \<Rightarrow> 'f \<Rightarrow> 'f"
  fless :: "'f \<Rightarrow> 'f \<Rightarrow> bool"
  fconst :: "int \<Rightarrow> 'f"

definition fpdf_New :: "'f \<Rightarrow> 'f \<Rightarrow> 'f Fpdf" where
  "fpdf_New wd ht = \<lparr>pdfW = wd, pdfH = ht, pdfPage = 0, pdfLinks = 0, pdfTextColor = (0, 0, 0),
     pdfDots = 0, pdfLog = []\<rparr>"

definition pdf_AddPage :: "'f Fpdf \<Rightarrow> 'f Fpdf" where
  "pdf_AddPage pdf = pdf\<lparr>pdfPage := Suc (pdfPage pdf), pdfLog := pdfLog pdf @ [AddPage]\<rparr>"

definition pdf_AddLink :: "'f Fpdf \<Rightarrow> 'f Fpdf \<times> int" where
  "pdf_AddLink pdf = (pdf\<lparr>pdfLinks := Suc (pdfLinks pdf)\<rparr>, int (Suc (pdfLinks pdf)))"

definition pdf_SetLink :: "'f Fpdf \<Rightarrow> int \<Rightarrow> nat \<Rightarrow> 'f Fpdf outcome" where
  "pdf_SetLink pdf link pg =
     (if 0 \<le> link \<and> link \<le> int (pdfLinks pdf)
      then Returns (pdf\<lparr>pdfLog := pdfLog pdf @ [SetLink link pg]\<rparr>)
      else Panics)"

definition pdf_Link :: "'f Fpdf \<Rightarrow> site \<Rightarrow> int option \<Rightarrow> int \<Rightarrow> int \<Rightarrow> 'f Fpdf" where
  "pdf_Link pdf s wd ht link = pdf\<lparr>pdfLog := pdfLog pdf @ [Link s wd ht link]\<rparr>"

definition pdf_CellFormat :: "'f Fpdf \<Rightarrow> site \<Rightarrow> string \<Rightarrow> 'f Fpdf" where
  "pdf_CellFormat pdf s txt = pdf\<lparr>pdfLog := pdfLog pdf @ [Cell s (pdfTextColor pdf) txt]\<rparr>"

definition pdf_SetTextColor :: "'f Fpdf \<Rightarrow> nat \<Rightarrow> nat \<Rightarrow> nat \<Rightarrow> 'f Fpdf" where
  "pdf_SetTextColor pdf r g b = pdf\<lparr>pdfTextColor := (r, g, b)\<rparr>"

definition pdf_Circle :: "'f Fpdf \<Rightarrow> 'f Fpdf" where
  "pdf_Circle pdf = pdf\<lparr>pdfDots := Suc (pdfDots pdf)\<rparr>"

section \<open>main.go\<close>

record 'f Layout =
  PageSize :: string
  Margin :: 'f
  Font :: string
  TitleSize :: 'f
  SubTitleSize :: 'f
  BodySize :: 'f
  GridSpacingPt :: 'f
  ShowWeeks :: bool
  ShowDays :: bool
  ShowCollections :: bool

record 'f PlannerConfig =
  Year :: int
  Output :: string
  Layout :: "'f Layout"

record Links =
  Year :: int
  Months :: "int list"
  Weeks :: "int \<rightharpoonup> int list"
  Days :: "string \<rightharpoonup> int"
  Collections :: "string \<rightharpoonup> int"
  Hubs :: "string \<rightharpoonup> int"

definition newLinks :: Links where
  "newLinks = \<lparr>Year = 0, Months = replicate 12 0, Weeks = Map.empty, Days = Map.empty,
     Collections = Map.empty, Hubs = Map.empty\<rparr>"

subsection \<open>Drawing helpers\<close>

text \<open>
  The two loops of \<^verbatim>\<open>dotGrid\<close>. Each is a partial function over the \<^verbatim>\<open>float64\<close>
  operations it is given: nothing in the text of the loops bounds them.
\<close>

partial_function (option) dotGrid_x :: "'f float64 \<Rightarrow> 'f \<Rightarrow> 'f \<Rightarrow> 'f \<Rightarrow> 'f Fpdf \<Rightarrow> 'f Fpdf option" where
  "dotGrid_x F xcur right sp pdf =
     (if fless F xcur right then dotGrid_x F (fadd F xcur sp) right sp (pdf_Circle pdf) else Some pdf)"

partial_function (option) dotGrid_y :: "'f float64 \<Rightarrow> 'f \<Rightarrow> 'f \<Rightarrow> 'f \<Rightarrow> 'f \<Rightarrow> 'f \<Rightarrow> 'f Fpdf \<Rightarrow> 'f Fpdf option" where
  "dotGrid_y F ycur bottom left right sp pdf =
     (if fless F ycur bottom
      then (case dotGrid_x F (fadd F left sp) right sp pdf of
              None \<Rightarrow> None
            | Some pdf' \<Rightarrow> dotGrid_y F (fadd F ycur sp) bottom left right sp pdf')
      else Some pdf)"

declare dotGrid_x.simps [code]
declare dotGrid_y.simps [code]

definition dotGrid :: "'f float64 \<Rightarrow> 'f Fpdf \<Rightarrow> 'f Layout \<Rightarrow> 'f Fpdf outcome" where
  "dotGrid F pdf l =
     (let w = pdfW pdf; h = pdfH pdf;
          left = Margin l; top = Margin l;
          right = fsub F w (Margin l); bottom = fsub F h (Margin l)
      in case dotGrid_y F (fadd F top (GridSpacingPt l)) bottom left right (GridSpacingPt l) pdf of
           None \<Rightarrow> Hangs
         | Some pdf' \<Rightarrow> Returns pdf')"

definition setTitle :: "'f Fpdf \<Rightarrow> 'f Layout \<Rightarrow> string \<Rightarrow> 'f Fpdf" where
  "setTitle pdf l txt = pdf_CellFormat pdf Title txt"

definition setSubTitle :: "'f Fpdf \<Rightarrow> 'f Layout \<Rightarrow> string \<Rightarrow> 'f Fpdf" where
  "setSubTitle pdf l txt = pdf_CellFormat pdf SubTitle txt"

definition addNav :: "'f Fpdf \<Rightarrow> 'f Layout \<Rightarrow> int \<Rightarrow> int \<Rightarrow> 'f Fpdf" where
  "addNav pdf l homeLink backLink =
     (let pdf1 = (if backLink \<noteq> 0
                  then pdf_Link (pdf_CellFormat pdf NavBack ''< Back'') NavBack (Some 42) 16 backLink
                  else pdf);
          pdf2 = (if homeLink \<noteq> 0
                  then pdf_Link (pdf_CellFormat pdf1 NavHome ''Home'') NavHome (Some 60) 16 homeLink
                  else pdf1)
      in pdf2)"

text \<open>
  The loop of \<^verbatim>\<open>gridLinks\<close> over the labels. Its cursor \<open>(x, y)\<close> is kept as the cell's
  row and column: the column is the counter \<^verbatim>\<open>col\<close> of the source, and the row counts
  how often \<open>y\<close> has moved down.
\<close>

fun gridLinks_loop :: "'f Fpdf \<Rightarrow> int \<Rightarrow> int list \<Rightarrow> nat \<Rightarrow> nat \<Rightarrow> int \<Rightarrow> string list \<Rightarrow> 'f Fpdf" where
  "gridLinks_loop pdf cols anchors i row col [] = pdf"
| "gridLinks_loop pdf cols anchors i row col (label # labels) =
     (let pdf1 = pdf_CellFormat pdf (GridCell row col) label;
          pdf2 = (if i < length anchors \<and> anchors ! i \<noteq> 0
                  then pdf_Link pdf1 (GridCell row col) None 72 (anchors ! i)
                  else pdf1)
      in if col + 1 = cols
         then gridLinks_loop pdf2 cols anchors (Suc i) (Suc row) 0 labels
         else gridLinks_loop pdf2 cols anchors (Suc i) row (col + 1) labels)"

definition gridLinks :: "'f Fpdf \<Rightarrow> 'f Layout \<Rightarrow> int \<Rightarrow> string list \<Rightarrow> int list \<Rightarrow> 'f Fpdf" where
  "gridLinks pdf l cols labels anchors = gridLinks_loop pdf cols anchors 0 0 0 labels"

subsection \<open>Page builders\<close>

definition collectionNames :: "string list" where
  "collectionNames = [''Writing'', ''Ideas'', ''OOO'']"

definition yearPage :: "'f Fpdf \<Rightarrow> 'f PlannerConfig \<Rightarrow> Links \<Rightarrow> 'f Fpdf outcome" where
  "yearPage pdf cfg links =
     (let pdf1 = pdf_AddPage pdf
      in andThen (pdf_SetLink pdf1 (Links.Year links) (pdfPage pdf1)) (\<lambda>pdf2.
         let pdf3 = setTitle pdf2 (Layout cfg) (Sprintf_d (PlannerConfig.Year cfg) @ '' Bullet Journal'');
             pdf4 = setSubTitle pdf3 (Layout cfg) ''Months'';
             anchors = map (\<lambda>i. Months links ! i) [0..<12];
             labels = [''Jan'', ''Feb'', ''Mar'', ''Apr'', ''May'', ''Jun'', ''Jul'', ''Aug'', ''Sep'',
                       ''Oct'', ''Nov'', ''Dec''];
             pdf5 = gridLinks pdf4 (Layout cfg) 3 labels anchors
         in if ShowCollections (Layout cfg)
            then (let pdf6 = setSubTitle pdf5 (Layout cfg) ''Collections'';
                      anchors = [lookupInt (Collections links) ''Writing'',
                                 lookupInt (Collections links) ''Ideas'',
                                 lookupInt (Collections links) ''OOO'']
                  in Returns (gridLinks pdf6 (Layout cfg) 3 collectionNames anchors))
            else Returns pdf5))"

text \<open>The en dash of the two titles, as its three UTF-8 bytes.\<close>

definition enDash :: string where
  "enDash = [CHR 0xE2, CHR 0x80, CHR 0x93]"

definition monthPage_week :: "'f PlannerConfig \<Rightarrow> Links \<Rightarrow> int \<Rightarrow> 'f Fpdf \<Rightarrow> nat \<times> Time list \<Rightarrow> 'f Fpdf outcome" where
  "monthPage_week cfg links month pdf iw =
     (case iw of (idx, wk) \<Rightarrow>
        andThen (index wk 0) (\<lambda>mon.
        andThen (index wk 6) (\<lambda>sun.
        let lbl = ''Week '' @ Sprintf_d (int idx + 1) @ ''  ('' @ Format_Jan_02 mon @ '' '' @ enDash
                    @ '' '' @ Format_Jan_02 sun @ '')'';
            pdf1 = pdf_CellFormat pdf WeekRow lbl
        in if ShowWeeks (Layout cfg)
           then andThen (index (lookupSlice (Weeks links) month) (int idx)) (\<lambda>a.
                  Returns (pdf_Link pdf1 WeekRow (Some 300) 14 a))
           else Returns pdf1)))"

definition monthPage_day :: "'f PlannerConfig \<Rightarrow> Links \<Rightarrow> int \<Rightarrow> 'f Fpdf \<Rightarrow> int \<Rightarrow> 'f Fpdf" where
  "monthPage_day cfg links month pdf d =
     (let pdf1 = pdf_CellFormat pdf DayRow (Sprintf_2d d)
      in if ShowDays (Layout cfg)
         then (let dt = DateUTC (PlannerConfig.Year cfg) month d;
                   key = Format_ISO dt
               in pdf_Link pdf1 DayRow (Some 60) 14 (lookupInt (Days links) key))
         else pdf1)"

text \<open>
  The day count of \<^verbatim>\<open>monthPage\<close>:
  \<^verbatim>\<open>time.Date(cfg.Year, time.Month(month+1), 0, 0, 0, 0, 0, time.UTC).Day()\<close>.
\<close>

definition daysInMonth :: "int \<Rightarrow> int \<Rightarrow> int" where
  "daysInMonth year month = Time_Day (DateUTC year (month + 1) 0)"

definition monthPage :: "'f Fpdf \<Rightarrow> 'f PlannerConfig \<Rightarrow> Links \<Rightarrow> int \<Rightarrow> 'f Fpdf outcome" where
  "monthPage pdf cfg links month =
     (let pdf1 = pdf_AddPage pdf
      in andThen (index (Months links) (month - 1)) (\<lambda>a.
         andThen (pdf_SetLink pdf1 a (pdfPage pdf1)) (\<lambda>pdf2.
         let pdf3 = addNav pdf2 (Layout cfg) (Links.Year links) 0;
             pdf4 = setTitle pdf3 (Layout cfg)
                      (Month_String month @ '' '' @ Sprintf_d (PlannerConfig.Year cfg))
         in case monthWeeks (PlannerConfig.Year cfg) month of
              None \<Rightarrow> Hangs
            | Some weeks \<Rightarrow>
                andThen (forEach (enumerate 0 weeks) (monthPage_week cfg links month) pdf4) (\<lambda>pdf5.
                let daysInMonth = daysInMonth (PlannerConfig.Year cfg) month
                in Returns (foldl (monthPage_day cfg links month) pdf5 [1..daysInMonth])))))"

definition weekPage_day :: "'f PlannerConfig \<Rightarrow> Links \<Rightarrow> int \<Rightarrow> 'f Fpdf \<Rightarrow> Time \<Rightarrow> 'f Fpdf" where
  "weekPage_day cfg links month pdf d =
     (let txt = Format_Mon_Jan_02 d;
          pdf1 = (if Time_Month d \<noteq> month then pdf_SetTextColor pdf 140 140 140
                  else pdf_SetTextColor pdf 0 0 0);
          pdf2 = pdf_CellFormat pdf1 DateRow txt
      in if ShowDays (Layout cfg) \<and> Time_Month d = month
         then pdf_Link pdf2 DateRow (Some 300) 14 (lookupInt (Days links) (Format_ISO d))
         else pdf2)"

definition weekPage :: "'f Fpdf \<Rightarrow> 'f PlannerConfig \<Rightarrow> Links \<Rightarrow> int \<Rightarrow> int \<Rightarrow> Time list \<Rightarrow> 'f Fpdf outcome" where
  "weekPage pdf cfg links month weekIdx days =
     (let pdf1 = pdf_AddPage pdf
      in andThen (index (lookupSlice (Weeks links) month) weekIdx) (\<lambda>a.
         andThen (pdf_SetLink pdf1 a (pdfPage pdf1)) (\<lambda>pdf2.
         andThen (index (Months links) (month - 1)) (\<lambda>back.
         let pdf3 = addNav pdf2 (Layout cfg) (Links.Year links) back;
             pdf4 = setTitle pdf3 (Layout cfg)
                      (Month_String month @ '' '' @ enDash @ '' Week '' @ Sprintf_d (weekIdx + 1));
             pdf5 = foldl (weekPage_day cfg links month) pdf4 days
         in Returns (pdf_SetTextColor pdf5 0 0 0)))))"

definition dayPage :: "'f float64 \<Rightarrow> 'f Fpdf \<Rightarrow> 'f PlannerConfig \<Rightarrow> Links \<Rightarrow> Time \<Rightarrow> int \<Rightarrow> 'f Fpdf outcome" where
  "dayPage F pdf cfg links d back =
     (let pdf1 = pdf_AddPage pdf;
          key = Format_ISO d
      in andThen (pdf_SetLink pdf1 (lookupInt (Days links) key) (pdfPage pdf1)) (\<lambda>pdf2.
         let pdf3 = addNav pdf2 (Layout cfg) (Links.Year links) back;
             pdf4 = setTitle pdf3 (Layout cfg) (Format_Long d)
         in dotGrid F pdf4 (Layout cfg)))"

definition collectionsHub :: "'f Fpdf \<Rightarrow> 'f PlannerConfig \<Rightarrow> Links \<Rightarrow> 'f Fpdf outcome" where
  "collectionsHub pdf cfg links =
     (let pdf1 = pdf_AddPage pdf
      in andThen (pdf_SetLink pdf1 (lookupInt (Hubs links) ''Collections'') (pdfPage pdf1)) (\<lambda>pdf2.
         let pdf3 = addNav pdf2 (Layout cfg) (Links.Year links) 0;
             pdf4 = setTitle pdf3 (Layout cfg) ''Collections'';
             anchors = [lookupInt (Collections links) ''Writing'',
                        lookupInt (Collections links) ''Ideas'',
                        lookupInt (Collections links) ''OOO'']
         in Returns (gridLinks pdf4 (Layout cfg) 3 collectionNames anchors)))"

definition collectionPage :: "'f float64 \<Rightarrow> 'f Fpdf \<Rightarrow> 'f PlannerConfig \<Rightarrow> Links \<Rightarrow> string \<Rightarrow> 'f Fpdf outcome" where
  "collectionPage F pdf cfg links name =
     (let pdf1 = pdf_AddPage pdf
      in andThen (pdf_SetLink pdf1 (lookupInt (Collections links) name) (pdfPage pdf1)) (\<lambda>pdf2.
         let pdf3 = addNav pdf2 (Layout cfg) (Links.Year links) (lookupInt (Hubs links) ''Collections'');
             pdf4 = setTitle pdf3 (Layout cfg) name
         in dotGrid F pdf4 (Layout cfg)))"


subsection \<open>The build\<close>

text \<open>
  \<^verbatim>\<open>buildPlanner\<close> is given in its two passes. The allocation pass (the source from
  \<^verbatim>\<open>links := newLinks()\<close> to the end of the collections block) hands out the anchors;
  the render pass (from \<^verbatim>\<open>yearPage\<close> on) draws the pages. Writing the file
  (\<^verbatim>\<open>OutputFileAndClose\<close>) is left out: the build returns the document and the registry.
\<close>

definition allocWeek :: "int \<Rightarrow> 'f Fpdf \<times> Links \<Rightarrow> nat \<Rightarrow> 'f Fpdf \<times> Links" where
  "allocWeek m s i =
     (case s of (pdf, links) \<Rightarrow>
        case pdf_AddLink pdf of (pdf1, a) \<Rightarrow>
          (pdf1, links\<lparr>Weeks := (Weeks links)(m \<mapsto> (lookupSlice (Weeks links) m)[i := a])\<rparr>))"

definition allocDay :: "int \<Rightarrow> 'f Fpdf \<times> Links \<Rightarrow> Time \<Rightarrow> 'f Fpdf \<times> Links" where
  "allocDay m s d =
     (case s of (pdf, links) \<Rightarrow>
        if Time_Month d = m
        then (let key = Format_ISO d
              in if lookupInt (Days links) key = 0
                 then (case pdf_AddLink pdf of (pdf1, a) \<Rightarrow>
                         (pdf1, links\<lparr>Days := (Days links)(key \<mapsto> a)\<rparr>))
                 else (pdf, links))
        else (pdf, links))"

definition allocMonth :: "'f PlannerConfig \<Rightarrow> 'f Fpdf \<times> Links \<Rightarrow> int \<Rightarrow> ('f Fpdf \<times> Links) outcome" where
  "allocMonth cfg s m =
     (case s of (pdf, links) \<Rightarrow>
        case pdf_AddLink pdf of (pdf1, a) \<Rightarrow>
          let links1 = links\<lparr>Months := (Months links)[nat (m - 1) := a]\<rparr>
          in case monthWeeks (PlannerConfig.Year cfg) m of
               None \<Rightarrow> Hangs
             | Some weeks \<Rightarrow>
                 let links2 = links1\<lparr>Weeks := (Weeks links1)(m \<mapsto> replicate (length weeks) 0)\<rparr>;
                     s3 = foldl (allocWeek m) (pdf1, links2) [0..<length weeks];
                     s4 = foldl (\<lambda>s wk. foldl (allocDay m) s wk) s3 weeks
                 in Returns s4)"

definition allocCollections :: "'f Fpdf \<times> Links \<Rightarrow> 'f Fpdf \<times> Links" where
  "allocCollections s =
     (case s of (pdf, links) \<Rightarrow>
        case pdf_AddLink pdf of (pdf1, a1) \<Rightarrow>
        case pdf_AddLink pdf1 of (pdf2, a2) \<Rightarrow>
        case pdf_AddLink pdf2 of (pdf3, a3) \<Rightarrow>
        case pdf_AddLink pdf3 of (pdf4, a4) \<Rightarrow>
          (pdf4, links\<lparr>Hubs := (Hubs links)(''Collections'' \<mapsto> a1),
                        Collections := (Collections links)(''Writing'' \<mapsto> a2, ''Ideas'' \<mapsto> a3, ''OOO'' \<mapsto> a4)\<rparr>))"

text \<open>The \<^verbatim>\<open>switch\<close> on the page size: \<^verbatim>\<open>"PaperPro"\<close> is 504 by 672 points, anything else is Letter.\<close>

definition newDocument :: "'f float64 \<Rightarrow> 'f PlannerConfig \<Rightarrow> 'f Fpdf" where
  "newDocument F cfg =
     (if PageSize (Layout cfg) = ''PaperPro''
      then fpdf_New (fconst F 504) (fconst F 672)
      else fpdf_New (fconst F 612) (fconst F 792))"

definition allocate :: "'f float64 \<Rightarrow> 'f PlannerConfig \<Rightarrow> ('f Fpdf \<times> Links) outcome" where
  "allocate F cfg =
     (case pdf_AddLink (newDocument F cfg) of (pdf1, y) \<Rightarrow>
        andThen (forEach [1..12] (allocMonth cfg) (pdf1, newLinks\<lparr>Year := y\<rparr>)) (\<lambda>s.
        Returns (if ShowCollections (Layout cfg) then allocCollections s else s)))"

definition renderDay :: "'f float64 \<Rightarrow> 'f PlannerConfig \<Rightarrow> Links \<Rightarrow> int \<Rightarrow> nat \<Rightarrow> 'f Fpdf \<Rightarrow> Time \<Rightarrow> 'f Fpdf outcome" where
  "renderDay F cfg links month idx pdf d =
     (if Time_Month d \<noteq> month then Returns pdf
      else andThen (index (lookupSlice (Weeks links) month) (int idx)) (\<lambda>back.
             dayPage F pdf cfg links d back))"

definition renderWeek :: "'f float64 \<Rightarrow> 'f PlannerConfig \<Rightarrow> Links \<Rightarrow> int \<Rightarrow> 'f Fpdf \<Rightarrow> nat \<times> Time list \<Rightarrow> 'f Fpdf outcome" where
  "renderWeek F cfg links month pdf iw =
     (case iw of (idx, wk) \<Rightarrow>
        andThen (weekPage pdf cfg links month (int idx) wk) (\<lambda>pdf1.
        if ShowDays (Layout cfg) then forEach wk (renderDay F cfg links month idx) pdf1
        else Returns pdf1))"

definition renderMonth :: "'f float64 \<Rightarrow> 'f PlannerConfig \<Rightarrow> Links \<Rightarrow> 'f Fpdf \<Rightarrow> int \<Rightarrow> 'f Fpdf outcome" where
  "renderMonth F cfg links pdf month =
     andThen (monthPage pdf cfg links month) (\<lambda>pdf1.
     if ShowWeeks (Layout cfg)
     then (case monthWeeks (PlannerConfig.Year cfg) month of
             None \<Rightarrow> Hangs
           | Some weeks \<Rightarrow> forEach (enumerate 0 weeks) (renderWeek F cfg links month) pdf1)
     else Returns pdf1)"

definition render :: "'f float64 \<Rightarrow> 'f PlannerConfig \<Rightarrow> Links \<Rightarrow> 'f Fpdf \<Rightarrow> 'f Fpdf outcome" where
  "render F cfg links pdf =
     andThen (yearPage pdf cfg links) (\<lambda>pdf1.
     andThen (forEach [1..12] (renderMonth F cfg links) pdf1) (\<lambda>pdf2.
     if ShowCollections (Layout cfg)
     then andThen (collectionsHub pdf2 cfg links) (\<lambda>pdf3.
            forEach collectionNames (\<lambda>pdf name. collectionPage F pdf cfg links name) pdf3)
     else Returns pdf2))"

definition buildPlanner :: "'f float64 \<Rightarrow> 'f PlannerConfig \<Rightarrow> ('f Fpdf \<times> Links) outcome" where
  "buildPlanner F cfg =
     andThen (allocate F cfg) (\<lambda>s. case s of (pdf, links) \<Rightarrow>
     andThen (render F cfg links pdf) (\<lambda>pdf1. Returns (pdf1, links)))"

section \<open>Vocabulary for the statements\<close>

text \<open>
  Nothing in this section is part of the program. It names what the theorems talk about.
\<close>

subsection \<open>The calendar on day numbers\<close>

text \<open>
  The proleptic Gregorian calendar, without any machine arithmetic: a day is its number,
  counted from 1 January of year 1, which is day 0. \<open>yearStart\<close> is the number of
  1 January of a year, \<open>dayNumber\<close> the number of a date (with the month and the day
  counting on beyond their ranges), \<open>civilDate\<close> the date of a number. The midnight that
  begins day \<open>t\<close> is the instant \<open>86400 * t\<close>.
\<close>

definition yearStart :: "int \<Rightarrow> int" where
  "yearStart year =
     (let y = year - 1;
          n400 = y div 400; y1 = y - 400 * n400;
          n100 = y1 div 100; y2 = y1 - 100 * n100;
          n4 = y2 div 4; y3 = y2 - 4 * n4
      in 146097 * n400 + 36524 * n100 + 1461 * n4 + 365 * y3)"

definition dayNumber :: "int \<Rightarrow> int \<Rightarrow> int \<Rightarrow> int" where
  "dayNumber year month day =
     (let m = month - 1;
          year' = year + m div 12;
          month' = m mod 12 + 1
      in yearStart year' + daysBefore ! nat (month' - 1)
         + (if isLeap year' \<and> 3 \<le> month' then 1 else 0) + (day - 1))"

definition civilYear :: "int \<Rightarrow> int \<times> int" where
  "civilYear t =
     (let n = t div 146097; y = 400 * n; d = t - 146097 * n;
          n1 = d div 36524; n1' = n1 - n1 div 4; y1 = y + 100 * n1'; d1 = d - 36524 * n1';
          n2 = d1 div 1461; y2 = y1 + 4 * n2; d2 = d1 - 1461 * n2;
          n3 = d2 div 365; n3' = n3 - n3 div 4; y3 = y2 + n3'; d3 = d2 - 365 * n3'
      in (y3 + 1, d3))"

definition civilDate :: "int \<Rightarrow> int \<times> int \<times> int" where
  "civilDate t =
     (let (year, yday) = civilYear t in
      if isLeap year \<and> yday = 31 + 29 - 1 then (year, 2, 29)
      else
        let day = (if isLeap year \<and> yday > 31 + 29 - 1 then yday - 1 else yday);
            (month, day') = monthDay day
        in (year, month, day'))"

definition monthOf :: "int \<Rightarrow> int" where
  "monthOf t = (case civilDate t of (y, m, d) \<Rightarrow> m)"

definition weekdayOf :: "int \<Rightarrow> int" where
  "weekdayOf t = (t + 1) mod 7"

definition yearLen :: "int \<Rightarrow> int" where
  "yearLen y = (if isLeap y then 366 else 365)"

definition instant :: "int \<Rightarrow> Time" where
  "instant t = 86400 * t"

text \<open>
  The days whose midnight the second counter of package \<^verbatim>\<open>time\<close> can hold, and the
  years all of whose weeks consist of such days: from the absolute zero year to the last
  year that ends before the counter, an \<^verbatim>\<open>int64\<close> of seconds since year 1, overflows.
\<close>

definition dayOK :: "int \<Rightarrow> bool" where
  "dayOK t \<longleftrightarrow> - 106751990353932 \<le> t \<and> t \<le> 106751991167300"

definition yearOK :: "int \<Rightarrow> bool" where
  "yearOK year \<longleftrightarrow> - 292277022399 \<le> year \<and> year \<le> 292277024626"

text \<open>
  The seven consecutive days that start at a given day, the Monday on or before the first
  of a month, and the number of weeks from that Monday that are needed to pass the last
  day of the month.
\<close>

definition weekOf :: "int \<Rightarrow> int list" where
  "weekOf c = [c, c + 1, c + 2, c + 3, c + 4, c + 5, c + 6]"

definition monthStart :: "int \<Rightarrow> int \<Rightarrow> int" where
  "monthStart year month = dayNumber year month 1 - (weekdayOf (dayNumber year month 1) + 6) mod 7"

definition weekCount :: "int \<Rightarrow> int \<Rightarrow> nat" where
  "weekCount year month = Suc (nat ((dayNumber year (month + 1) 0 - monthStart year month) div 7))"

subsection \<open>Decimal strings\<close>

definition digitVal :: "char \<Rightarrow> nat" where
  "digitVal c = of_char c - 48"

definition atoi :: "string \<Rightarrow> nat" where
  "atoi s = foldl (\<lambda>v c. 10 * v + digitVal c) 0 s"

definition parseInt :: "string \<Rightarrow> int" where
  "parseInt s = (case s of [] \<Rightarrow> 0 | c # r \<Rightarrow> if c = CHR ''-'' then - int (atoi r) else int (atoi s))"

fun anchorsBefore :: "int \<Rightarrow> nat \<Rightarrow> nat" where
  "anchorsBefore Y 0 = 1"
| "anchorsBefore Y (Suc j) =
     anchorsBefore Y j + 1 + weekCount Y (int (Suc j)) + nat (daysIn (int (Suc j)) Y)"

definition monthAnchor :: "int \<Rightarrow> int \<Rightarrow> int" where
  "monthAnchor Y m = int (anchorsBefore Y (nat (m - 1))) + 1"

definition weekAnchor :: "int \<Rightarrow> int \<Rightarrow> nat \<Rightarrow> int" where
  "weekAnchor Y m i = monthAnchor Y m + 1 + int i"

definition dayAnchor :: "int \<Rightarrow> int \<Rightarrow> int \<Rightarrow> int" where
  "dayAnchor Y m d = monthAnchor Y m + int (weekCount Y m) + d"

definition dayKeys :: "int \<Rightarrow> int \<Rightarrow> nat \<Rightarrow> int \<Rightarrow> (string \<times> int) list" where
  "dayKeys Y m q base = map (\<lambda>d. (Format_ISO (DateUTC Y m d), base + d)) [1..int q]"

definition registryAfter :: "int \<Rightarrow> nat \<Rightarrow> Links \<Rightarrow> bool" where
  "registryAfter Y j L \<longleftrightarrow>
     Links.Year L = 1 \<and> length (Months L) = 12
   \<and> (\<forall>m. 1 \<le> m \<and> m \<le> 12 \<longrightarrow> Months L ! nat (m - 1) = (if m \<le> int j then monthAnchor Y m else 0))
   \<and> (\<forall>m. Weeks L m = (if 1 \<le> m \<and> m \<le> int j
                          then Some (map (weekAnchor Y m) [0..<weekCount Y m]) else None))
   \<and> (\<forall>m d. 1 \<le> m \<and> m \<le> int j \<and> 1 \<le> d \<and> d \<le> daysIn m Y
          \<longrightarrow> Days L (Format_ISO (DateUTC Y m d)) = Some (dayAnchor Y m d))
   \<and> dom (Days L) = {Format_ISO (DateUTC Y m d) | m d. 1 \<le> m \<and> m \<le> int j \<and> 1 \<le> d \<and> d \<le> daysIn m Y}
   \<and> Collections L = Map.empty \<and> Hubs L = Map.empty"

definition collectionsAdded :: "int \<Rightarrow> Links \<Rightarrow> Links" where
  "collectionsAdded n L = L\<lparr>Hubs := (Hubs L)(''Collections'' \<mapsto> n + 1),
     Collections := (Collections L)(''Writing'' \<mapsto> n + 2, ''Ideas'' \<mapsto> n + 3, ''OOO'' \<mapsto> n + 4)\<rparr>"

definition emit :: "'f Fpdf \<Rightarrow> op list \<Rightarrow> 'f Fpdf" where
  "emit pdf xs = pdf\<lparr>pdfLog := pdfLog pdf @ xs\<rparr>"

definition navOps :: "int \<Rightarrow> int \<Rightarrow> op list" where
  "navOps homeLink backLink =
     (if backLink \<noteq> 0 then [Cell NavBack (0, 0, 0) ''< Back'', Link NavBack (Some 42) 16 backLink] else [])
     @ (if homeLink \<noteq> 0 then [Cell NavHome (0, 0, 0) ''Home'', Link NavHome (Some 60) 16 homeLink] else [])"

fun gridOps :: "int \<Rightarrow> int list \<Rightarrow> nat \<Rightarrow> nat \<Rightarrow> int \<Rightarrow> string list \<Rightarrow> op list" where
  "gridOps cols anchors i row col [] = []"
| "gridOps cols anchors i row col (label # labels) =
     Cell (GridCell row col) (0, 0, 0) label
     # (if i < length anchors \<and> anchors ! i \<noteq> 0 then [Link (GridCell row col) None 72 (anchors ! i)] else [])
     @ (if col + 1 = cols then gridOps cols anchors (Suc i) (Suc row) 0 labels
        else gridOps cols anchors (Suc i) row (col + 1) labels)"

definition collectionAnchors :: "Links \<Rightarrow> int list" where
  "collectionAnchors L = [lookupInt (Collections L) ''Writing'', lookupInt (Collections L) ''Ideas'',
     lookupInt (Collections L) ''OOO'']"

definition yearBody :: "'f PlannerConfig \<Rightarrow> Links \<Rightarrow> nat \<Rightarrow> op list" where
  "yearBody cfg L p =
     SetLink (Links.Year L) p
     # Cell Title (0, 0, 0) (Sprintf_d (PlannerConfig.Year cfg) @ '' Bullet Journal'')
     # Cell SubTitle (0, 0, 0) ''Months''
     # gridOps 3 (map (\<lambda>i. Months L ! i) [0..<12]) 0 0 0 shortMonthNames
     @ (if ShowCollections (Layout cfg)
        then Cell SubTitle (0, 0, 0) ''Collections'' # gridOps 3 (collectionAnchors L) 0 0 0 collectionNames
        else [])"

definition weekRowOps :: "'f PlannerConfig \<Rightarrow> Links \<Rightarrow> int \<Rightarrow> nat \<times> Time list \<Rightarrow> op list" where
  "weekRowOps cfg L m iw =
     (case iw of (idx, wk) \<Rightarrow>
        Cell WeekRow (0, 0, 0)
          (''Week '' @ Sprintf_d (int idx + 1) @ ''  ('' @ Format_Jan_02 (wk ! 0) @ '' '' @ enDash
             @ '' '' @ Format_Jan_02 (wk ! 6) @ '')'')
        # (if ShowWeeks (Layout cfg) then [Link WeekRow (Some 300) 14 (lookupSlice (Weeks L) m ! idx)] else []))"

definition dayRowOps :: "'f PlannerConfig \<Rightarrow> Links \<Rightarrow> int \<Rightarrow> int \<Rightarrow> op list" where
  "dayRowOps cfg L m d =
     Cell DayRow (0, 0, 0) (Sprintf_2d d)
     # (if ShowDays (Layout cfg)
        then [Link DayRow (Some 60) 14 (lookupInt (Days L) (Format_ISO (DateUTC (PlannerConfig.Year cfg) m d)))]
        else [])"

definition monthBody :: "'f PlannerConfig \<Rightarrow> Links \<Rightarrow> int \<Rightarrow> Time list list \<Rightarrow> nat \<Rightarrow> op list" where
  "monthBody cfg L m ws p =
     SetLink (Months L ! nat (m - 1)) p
     # navOps (Links.Year L) 0
     @ [Cell Title (0, 0, 0) (Month_String m @ '' '' @ Sprintf_d (PlannerConfig.Year cfg))]
     @ concat (map (weekRowOps cfg L m) (enumerate 0 ws))
     @ concat (map (dayRowOps cfg L m) [1..daysInMonth (PlannerConfig.Year cfg) m])"

definition dateRowOps :: "'f PlannerConfig \<Rightarrow> Links \<Rightarrow> int \<Rightarrow> Time \<Rightarrow> op list" where
  "dateRowOps cfg L m d =
     Cell DateRow (if Time_Month d \<noteq> m then (140, 140, 140) else (0, 0, 0)) (Format_Mon_Jan_02 d)
     # (if ShowDays (Layout cfg) \<and> Time_Month d = m
        then [Link DateRow (Some 300) 14 (lookupInt (Days L) (Format_ISO d))] else [])"

definition weekBody :: "'f PlannerConfig \<Rightarrow> Links \<Rightarrow> int \<Rightarrow> nat \<Rightarrow> Time list \<Rightarrow> nat \<Rightarrow> op list" where
  "weekBody cfg L m idx wk p =
     SetLink (lookupSlice (Weeks L) m ! idx) p
     # navOps (Links.Year L) (Months L ! nat (m - 1))
     @ [Cell Title (0, 0, 0) (Month_String m @ '' '' @ enDash @ '' Week '' @ Sprintf_d (int idx + 1))]
     @ concat (map (dateRowOps cfg L m) wk)"

definition dayBody :: "'f PlannerConfig \<Rightarrow> Links \<Rightarrow> Time \<Rightarrow> int \<Rightarrow> nat \<Rightarrow> op list" where
  "dayBody cfg L d back p =
     SetLink (lookupInt (Days L) (Format_ISO d)) p
     # navOps (Links.Year L) back
     @ [Cell Title (0, 0, 0) (Format_Long d)]"

definition hubBody :: "'f PlannerConfig \<Rightarrow> Links \<Rightarrow> nat \<Rightarrow> op list" where
  "hubBody cfg L p =
     SetLink (lookupInt (Hubs L) ''Collections'') p
     # navOps (Links.Year L) 0
     @ [Cell Title (0, 0, 0) ''Collections'']
     @ gridOps 3 (collectionAnchors L) 0 0 0 collectionNames"

definition collectionBody :: "'f PlannerConfig \<Rightarrow> Links \<Rightarrow> string \<Rightarrow> nat \<Rightarrow> op list" where
  "collectionBody cfg L name p =
     SetLink (lookupInt (Collections L) name) p
     # navOps (Links.Year L) (lookupInt (Hubs L) ''Collections'')
     @ [Cell Title (0, 0, 0) name]"

fun layout :: "nat \<Rightarrow> (nat \<Rightarrow> op list) list \<Rightarrow> op list" where
  "layout p [] = []"
| "layout p (f # fs) = AddPage # f (Suc p) @ layout (Suc p) fs"

definition adds :: "'f Fpdf \<Rightarrow> (nat \<Rightarrow> op list) list \<Rightarrow> 'f Fpdf \<Rightarrow> bool" where
  "adds pdf fs pdf' \<longleftrightarrow>
     pdfPage pdf' = pdfPage pdf + length fs
   \<and> pdfLog pdf' = pdfLog pdf @ layout (pdfPage pdf) fs
   \<and> pdfLinks pdf' = pdfLinks pdf \<and> pdfTextColor pdf' = (0, 0, 0)
   \<and> pdfW pdf' = pdfW pdf \<and> pdfH pdf' = pdfH pdf"

definition registryFinal :: "'f PlannerConfig \<Rightarrow> Links \<Rightarrow> bool" where
  "registryFinal cfg L \<longleftrightarrow>
     (\<exists>L0. registryAfter (PlannerConfig.Year cfg) 12 L0
        \<and> L = (if ShowCollections (Layout cfg)
               then collectionsAdded (int (anchorsBefore (PlannerConfig.Year cfg) 12)) L0 else L0))"

definition anchorCount :: "'f PlannerConfig \<Rightarrow> nat" where
  "anchorCount cfg = anchorsBefore (PlannerConfig.Year cfg) 12 + (if ShowCollections (Layout cfg) then 4 else 0)"

definition dayPages :: "'f PlannerConfig \<Rightarrow> Links \<Rightarrow> int \<Rightarrow> nat \<Rightarrow> Time list \<Rightarrow> (nat \<Rightarrow> op list) list" where
  "dayPages cfg L m idx wk =
     map (\<lambda>d. dayBody cfg L d (lookupSlice (Weeks L) m ! idx)) (filter (\<lambda>d. Time_Month d = m) wk)"

definition weekPages :: "'f PlannerConfig \<Rightarrow> Links \<Rightarrow> int \<Rightarrow> nat \<times> Time list \<Rightarrow> (nat \<Rightarrow> op list) list" where
  "weekPages cfg L m iw =
     (case iw of (idx, wk) \<Rightarrow>
        weekBody cfg L m idx wk # (if ShowDays (Layout cfg) then dayPages cfg L m idx wk else []))"

definition monthPages :: "'f PlannerConfig \<Rightarrow> Links \<Rightarrow> int \<Rightarrow> (nat \<Rightarrow> op list) list" where
  "monthPages cfg L m =
     (case monthWeeks (PlannerConfig.Year cfg) m of
        None \<Rightarrow> []
      | Some ws \<Rightarrow>
          monthBody cfg L m ws
          # (if ShowWeeks (Layout cfg) then concat (map (weekPages cfg L m) (enumerate 0 ws)) else []))"

definition docPages :: "'f PlannerConfig \<Rightarrow> Links \<Rightarrow> (nat \<Rightarrow> op list) list" where
  "docPages cfg L =
     yearBody cfg L # concat (map (monthPages cfg L) [1..12])
     @ (if ShowCollections (Layout cfg) then hubBody cfg L # map (collectionBody cfg L) collectionNames else [])"

datatype pageId = PYear | PMonth int | PWeek int nat | PDay int nat Time | PHub | PCollection string

definition weeksOfMonth :: "int \<Rightarrow> int \<Rightarrow> Time list list" where
  "weeksOfMonth year month = (case monthWeeks year month of None \<Rightarrow> [] | Some ws \<Rightarrow> ws)"

definition weekOrder :: "'f PlannerConfig \<Rightarrow> int \<Rightarrow> nat \<times> Time list \<Rightarrow> pageId list" where
  "weekOrder cfg m iw =
     (case iw of (idx, wk) \<Rightarrow>
        PWeek m idx # (if ShowDays (Layout cfg) then map (PDay m idx) (filter (\<lambda>d. Time_Month d = m) wk) else []))"

definition monthOrder :: "'f PlannerConfig \<Rightarrow> int \<Rightarrow> pageId list" where
  "monthOrder cfg m =
     PMonth m # (if ShowWeeks (Layout cfg)
                 then concat (map (weekOrder cfg m) (enumerate 0 (weeksOfMonth (PlannerConfig.Year cfg) m)))
                 else [])"

definition pageOrder :: "'f PlannerConfig \<Rightarrow> pageId list" where
  "pageOrder cfg =
     PYear # concat (map (monthOrder cfg) [1..12])
     @ (if ShowCollections (Layout cfg) then PHub # map PCollection collectionNames else [])"

fun pageBody :: "'f PlannerConfig \<Rightarrow> Links \<Rightarrow> pageId \<Rightarrow> nat \<Rightarrow> op list" where
  "pageBody cfg L PYear = yearBody cfg L"
| "pageBody cfg L (PMonth m) = monthBody cfg L m (weeksOfMonth (PlannerConfig.Year cfg) m)"
| "pageBody cfg L (PWeek m idx) = weekBody cfg L m idx (weeksOfMonth (PlannerConfig.Year cfg) m ! idx)"
| "pageBody cfg L (PDay m idx d) = dayBody cfg L d (lookupSlice (Weeks L) m ! idx)"
| "pageBody cfg L PHub = hubBody cfg L"
| "pageBody cfg L (PCollection name) = collectionBody cfg L name"

fun anchorOf :: "Links \<Rightarrow> pageId \<Rightarrow> int" where
  "anchorOf L PYear = Links.Year L"
| "anchorOf L (PMonth m) = Months L ! nat (m - 1)"
| "anchorOf L (PWeek m idx) = lookupSlice (Weeks L) m ! idx"
| "anchorOf L (PDay m idx d) = lookupInt (Days L) (Format_ISO d)"
| "anchorOf L PHub = lookupInt (Hubs L) ''Collections''"
| "anchorOf L (PCollection name) = lookupInt (Collections L) name"

function pagesOf :: "op list \<Rightarrow> op list list" where
  "pagesOf [] = []"
| "pagesOf (x # xs) =
     (if x = AddPage
      then takeWhile (\<lambda>y. y \<noteq> AddPage) xs # pagesOf (dropWhile (\<lambda>y. y \<noteq> AddPage) xs)
      else pagesOf xs)"
  by pat_completeness auto
termination
  by (relation "measure length") (auto simp: length_dropWhile_le less_Suc_eq_le)

definition boundAnchors :: "op list \<Rightarrow> int list" where
  "boundAnchors xs = concat (map (\<lambda>x. case x of SetLink a p \<Rightarrow> [a] | _ \<Rightarrow> []) xs)"

definition boundPages :: "op list \<Rightarrow> nat list" where
  "boundPages xs = concat (map (\<lambda>x. case x of SetLink a p \<Rightarrow> [p] | _ \<Rightarrow> []) xs)"

definition linkTargets :: "site \<Rightarrow> op list \<Rightarrow> int list" where
  "linkTargets s xs = concat (map (\<lambda>x. case x of Link s' wd ht a \<Rightarrow> if s' = s then [a] else [] | _ \<Rightarrow> []) xs)"

definition allTargets :: "op list \<Rightarrow> int list" where
  "allTargets xs = concat (map (\<lambda>x. case x of Link s' wd ht a \<Rightarrow> [a] | _ \<Rightarrow> []) xs)"

definition opsAt :: "site \<Rightarrow> op list \<Rightarrow> op list" where
  "opsAt s xs = filter (\<lambda>x. case x of Link s' wd ht a \<Rightarrow> s' = s | Cell s' c t \<Rightarrow> s' = s | _ \<Rightarrow> False) xs"

section \<open>The calendar on day numbers\<close>

lemma dse_digits:
  assumes "0 \<le> b" "b < 4" "0 \<le> c" "c < 25" "0 \<le> e" "e < 4"
  shows "yearStart (400 * a + 100 * b + 4 * c + e + 1) = 146097 * a + 36524 * b + 1461 * c + 365 * e"
proof -
  have y: "400 * a + 100 * b + 4 * c + e + 1 - 1 = 400 * a + (100 * b + 4 * c + e)" by simp
  have q1: "(400 * a + (100 * b + 4 * c + e)) div 400 = a" using assms by linarith
  have y1: "400 * a + (100 * b + 4 * c + e) - 400 * a = 100 * b + (4 * c + e)" by simp
  have q2: "(100 * b + (4 * c + e)) div 100 = b" using assms by linarith
  have y2: "100 * b + (4 * c + e) - 100 * b = 4 * c + e" by simp
  have q3: "(4 * c + e) div 4 = c" using assms by linarith
  have y3: "4 * c + e - 4 * c = e" by simp
  show ?thesis
    unfolding yearStart_def Let_def y q1 y1 q2 y2 q3 y3 by (rule refl)
qed

lemma nshift: "(n::int) = b \<or> (n = 4 \<and> b = 3) \<Longrightarrow> 0 \<le> b \<Longrightarrow> b < 4 \<Longrightarrow> n - n div 4 = b"
  by linarith

lemma civilYear_digits:
  assumes "0 \<le> b" "b < 4" "0 \<le> c" "c < 25" "0 \<le> e" "e < 4" "0 \<le> yd"
    and "yd < 365 \<or> (yd = 365 \<and> e = 3 \<and> (c < 24 \<or> b = 3))"
  shows "civilYear (146097 * a + 36524 * b + 1461 * c + 365 * e + yd) = (400 * a + 100 * b + 4 * c + e + 1, yd)"
proof -
  let ?t = "146097 * a + 36524 * b + 1461 * c + 365 * e + yd"
  let ?d = "36524 * b + 1461 * c + 365 * e + yd"
  let ?d1 = "1461 * c + 365 * e + yd"
  let ?d2 = "365 * e + yd"
  have q0: "?t div 146097 = a" using assms by linarith
  have d0: "?t - 146097 * a = ?d" by simp
  have "?d div 36524 = b \<or> (?d div 36524 = 4 \<and> b = 3)" using assms by linarith
  then have q1: "?d div 36524 - ?d div 36524 div 4 = b" using assms(1,2) by (rule nshift)
  have d1: "?d - 36524 * b = ?d1" by simp
  have q2: "?d1 div 1461 = c" using assms by linarith
  have d2: "?d1 - 1461 * c = ?d2" by simp
  have "?d2 div 365 = e \<or> (?d2 div 365 = 4 \<and> e = 3)" using assms by linarith
  then have q3: "?d2 div 365 - ?d2 div 365 div 4 = e" using assms(5,6) by (rule nshift)
  have d3: "?d2 - 365 * e = yd" by simp
  show ?thesis
    unfolding civilYear_def Let_def q0 d0 q1 d1 q2 d2 q3 d3 by simp
qed


lemma mod_zero_digit:
  fixes k :: int
  assumes "y = k * q + (e + 1)" "0 \<le> e" "e + 1 \<le> k"
  shows "y mod k = 0 \<longleftrightarrow> e + 1 = k"
proof -
  have "y mod k = (e + 1) mod k" unfolding assms(1) by (simp only: mod_mult_self4)
  then show ?thesis using assms(2,3)
    by (cases "e + 1 = k") (simp_all add: mod_pos_pos_trivial)
qed

lemma isLeap_digits:
  assumes "0 \<le> b" "b < 4" "0 \<le> c" "c < 25" "0 \<le> e" "e < 4"
  shows "isLeap (400 * a + 100 * b + 4 * c + e + 1) \<longleftrightarrow> e = 3 \<and> (c < 24 \<or> b = 3)"
proof -
  let ?y = "400 * a + 100 * b + 4 * c + e + 1"
  have "?y mod 4 = 0 \<longleftrightarrow> e + 1 = 4"
    using assms by (intro mod_zero_digit[where q = "100 * a + 25 * b + c"]) simp_all
  then have m4: "?y mod 4 = 0 \<longleftrightarrow> e = 3" by simp
  have "?y mod 100 = 0 \<longleftrightarrow> (4 * c + e) + 1 = 100"
    using assms by (intro mod_zero_digit[where q = "4 * a + b"]) simp_all
  moreover have "(4 * c + e) + 1 = 100 \<longleftrightarrow> c = 24 \<and> e = 3" using assms by presburger
  ultimately have m100: "?y mod 100 = 0 \<longleftrightarrow> c = 24 \<and> e = 3" by simp
  have "?y mod 400 = 0 \<longleftrightarrow> (100 * b + 4 * c + e) + 1 = 400"
    using assms by (intro mod_zero_digit[where q = "a"]) simp_all
  moreover have "(100 * b + 4 * c + e) + 1 = 400 \<longleftrightarrow> b = 3 \<and> c = 24 \<and> e = 3" using assms by presburger
  ultimately have m400: "?y mod 400 = 0 \<longleftrightarrow> b = 3 \<and> c = 24 \<and> e = 3" by simp
  show ?thesis unfolding isLeap_def m4 m100 m400 using assms by auto
qed

lemma year_digits:
  obtains a b c e :: int where "y = 400 * a + 100 * b + 4 * c + e + 1"
    "0 \<le> b" "b < 4" "0 \<le> c" "c < 25" "0 \<le> e" "e < 4"
proof -
  define a where "a = (y - 1) div 400"
  define r where "r = (y - 1) mod 400"
  define b where "b = r div 100"
  define r2 where "r2 = r mod 100"
  define c where "c = r2 div 4"
  define e where "e = r2 mod 4"
  have 1: "y = 400 * a + r + 1" "0 \<le> r" "r < 400" unfolding a_def r_def by simp_all
  have 2: "r = 100 * b + r2" "0 \<le> r2" "r2 < 100" unfolding b_def r2_def by simp_all
  have 3: "r2 = 4 * c + e" "0 \<le> e" "e < 4" unfolding c_def e_def by simp_all
  have "y = 400 * a + 100 * b + 4 * c + e + 1" using 1 2 3 by simp
  moreover have "0 \<le> b" "b < 4" using 1 2 by linarith+
  moreover have "0 \<le> c" "c < 25" using 2 3 by linarith+
  ultimately show thesis using that 3 by blast
qed

lemma civilYear_yearStart:
  assumes "0 \<le> yd" "yd < yearLen y"
  shows "civilYear (yearStart y + yd) = (y, yd)"
proof -
  obtain a b c e where y: "y = 400 * a + 100 * b + 4 * c + e + 1"
    and bs: "0 \<le> b" "b < 4" "0 \<le> c" "c < 25" "0 \<le> e" "e < 4"
    by (rule year_digits)
  have "yd < 365 \<or> (yd = 365 \<and> e = 3 \<and> (c < 24 \<or> b = 3))"
    using assms(2) isLeap_digits[OF bs, of a] unfolding yearLen_def y by (auto split: if_splits)
  from civilYear_digits[OF bs assms(1) this, of a] show ?thesis
    unfolding y dse_digits[OF bs] .
qed

lemma yearStart_civilYear:
  assumes "civilYear t = (y, yd)"
  shows "yearStart y + yd = t \<and> 0 \<le> yd \<and> yd < yearLen y"
proof -
  define a where "a = t div 146097"
  define d where "d = t - 146097 * a"
  define n1 where "n1 = d div 36524"
  define b where "b = n1 - n1 div 4"
  define d1 where "d1 = d - 36524 * b"
  define c where "c = d1 div 1461"
  define d2 where "d2 = d1 - 1461 * c"
  define n3 where "n3 = d2 div 365"
  define e where "e = n3 - n3 div 4"
  define d3 where "d3 = d2 - 365 * e"
  have yy: "y = 400 * a + 100 * b + 4 * c + e + 1" and yd: "yd = d3"
    using assms unfolding civilYear_def Let_def a_def d_def n1_def b_def d1_def c_def d2_def n3_def e_def d3_def
    by auto
  have dr: "0 \<le> d" "d < 146097" unfolding d_def a_def by linarith+
  have n1r: "0 \<le> n1" "n1 \<le> 4" "36524 * n1 \<le> d" "d < 36524 * n1 + 36524" unfolding n1_def using dr by linarith+
  have br: "0 \<le> b" "b < 4" "n1 = b \<or> (n1 = 4 \<and> b = 3)" unfolding b_def using n1r(1,2) by linarith+
  have d1r: "0 \<le> d1" "d1 \<le> 36524" "d1 = 36524 \<longrightarrow> b = 3" unfolding d1_def using dr n1r br by linarith+
  have cr: "0 \<le> c" "c < 25" "1461 * c \<le> d1" "d1 < 1461 * c + 1461" unfolding c_def using d1r by linarith+
  have d2r: "0 \<le> d2" "d2 < 1461" "c = 24 \<and> d2 = 1460 \<longrightarrow> b = 3" unfolding d2_def using d1r cr by linarith+
  have n3r: "0 \<le> n3" "n3 \<le> 4" "365 * n3 \<le> d2" "d2 < 365 * n3 + 365" unfolding n3_def using d2r by linarith+
  have er: "0 \<le> e" "e < 4" "n3 = e \<or> (n3 = 4 \<and> e = 3)" unfolding e_def using n3r(1,2) by linarith+
  have d3r: "0 \<le> d3" "d3 \<le> 365" "d3 = 365 \<longrightarrow> e = 3 \<and> d2 = 1460" unfolding d3_def using d2r n3r er by linarith+
  have t: "t = 146097 * a + 36524 * b + 1461 * c + 365 * e + d3"
    unfolding d3_def d2_def d1_def d_def by simp
  have leap: "d3 < 365 \<or> (d3 = 365 \<and> e = 3 \<and> (c < 24 \<or> b = 3))"
    using d3r d2r cr by linarith
  have "d3 < yearLen y"
    using leap isLeap_digits[OF br(1,2) cr(1,2) er(1,2), of a] unfolding yearLen_def yy by auto
  then show ?thesis
    unfolding yy dse_digits[OF br(1,2) cr(1,2) er(1,2)] yd using t d3r by simp
qed

lemma month_cases:
  fixes m :: int
  assumes "1 \<le> m" "m \<le> 12"
  shows "m = 1 \<or> m = 2 \<or> m = 3 \<or> m = 4 \<or> m = 5 \<or> m = 6 \<or> m = 7 \<or> m = 8 \<or> m = 9 \<or> m = 10 \<or> m = 11 \<or> m = 12"
  using assms by presburger

lemma div31_cases:
  fixes day :: int
  assumes "0 \<le> day" "day < 365"
  obtains k where "day div 31 = k" "31 * k \<le> day" "day < 31 * k + 31"
    "k = 0 \<or> k = 1 \<or> k = 2 \<or> k = 3 \<or> k = 4 \<or> k = 5 \<or> k = 6 \<or> k = 7 \<or> k = 8 \<or> k = 9 \<or> k = 10 \<or> k = 11"
proof -
  define k where "k = day div 31"
  have b: "31 * k \<le> day" "day < 31 * k + 31" unfolding k_def by linarith+
  with assms have "0 \<le> k" "k \<le> 11" by linarith+
  then have c: "k = 0 \<or> k = 1 \<or> k = 2 \<or> k = 3 \<or> k = 4 \<or> k = 5 \<or> k = 6 \<or> k = 7 \<or> k = 8 \<or> k = 9 \<or> k = 10 \<or> k = 11"
    by presburger
  have e: "day div 31 = k" by (simp add: k_def)
  show thesis by (rule that[OF e b c])
qed

lemma db:
  "daysBefore ! 0 = 0" "daysBefore ! 1 = 31" "daysBefore ! 2 = 59" "daysBefore ! 3 = 90"
  "daysBefore ! 4 = 120" "daysBefore ! 5 = 151" "daysBefore ! 6 = 181" "daysBefore ! 7 = 212"
  "daysBefore ! 8 = 243" "daysBefore ! 9 = 273" "daysBefore ! 10 = 304" "daysBefore ! 11 = 334"
  "daysBefore ! 12 = 365" "daysBefore ! Suc 0 = 31"
  by (simp_all add: daysBefore_def)

lemma monthDay_eq:
  "monthDay day = (if daysBefore ! nat (day div 31 + 1) \<le> day
      then (day div 31 + 2, day - daysBefore ! nat (day div 31 + 1) + 1)
      else (day div 31 + 1, day - daysBefore ! nat (day div 31) + 1))"
  by (simp add: monthDay_def Let_def)

lemma monthDay_decode:
  assumes "0 \<le> day" "day < 365" "monthDay day = (m, d)"
  shows "1 \<le> m \<and> m \<le> 12 \<and> 1 \<le> d \<and> d \<le> daysBefore ! nat m - daysBefore ! nat (m - 1)
     \<and> daysBefore ! nat (m - 1) + d - 1 = day"
proof -
  obtain k where k: "day div 31 = k" "31 * k \<le> day" "day < 31 * k + 31"
    and kc: "k = 0 \<or> k = 1 \<or> k = 2 \<or> k = 3 \<or> k = 4 \<or> k = 5 \<or> k = 6 \<or> k = 7 \<or> k = 8 \<or> k = 9 \<or> k = 10 \<or> k = 11"
    using assms(1,2) by (rule div31_cases)
  have md: "(m, d) = (if daysBefore ! nat (k + 1) \<le> day
      then (k + 2, day - daysBefore ! nat (k + 1) + 1)
      else (k + 1, day - daysBefore ! nat k + 1))"
    using assms(3) unfolding monthDay_eq k(1) by simp
  show ?thesis
  proof (cases "daysBefore ! nat (k + 1) \<le> day")
    case True
    with md have "m = k + 2" "d = day - daysBefore ! nat (k + 1) + 1" by simp_all
    with kc True assms(2) k(2,3) show ?thesis
      by (elim disjE) (simp_all add: db)
  next
    case False
    with md have "m = k + 1" "d = day - daysBefore ! nat k + 1" by simp_all
    with kc False assms(1) k(2,3) show ?thesis
      by (elim disjE) (simp_all add: db)
  qed
qed

lemma month_of_day_unique:
  assumes "1 \<le> m" "m \<le> 12" "daysBefore ! nat (m - 1) \<le> day" "day < daysBefore ! nat m"
  shows "m = (if day < 31 then 1 else if day < 59 then 2 else if day < 90 then 3 else if day < 120 then 4
     else if day < 151 then 5 else if day < 181 then 6 else if day < 212 then 7 else if day < 243 then 8
     else if day < 273 then 9 else if day < 304 then 10 else if day < 334 then 11 else 12)"
  using month_cases[OF assms(1,2)] assms(3,4)
  by (elim disjE) (simp_all add: db)

lemma monthDay_encode:
  assumes "1 \<le> m" "m \<le> 12" "1 \<le> d" "d \<le> daysBefore ! nat m - daysBefore ! nat (m - 1)"
  shows "monthDay (daysBefore ! nat (m - 1) + d - 1) = (m, d)"
proof -
  let ?day = "daysBefore ! nat (m - 1) + d - 1"
  have r: "0 \<le> ?day \<and> ?day < 365"
    using month_cases[OF assms(1,2)] assms(3,4) by (elim disjE) (simp_all add: db)
  obtain m' d' where md: "monthDay ?day = (m', d')" by (cases "monthDay ?day")
  from monthDay_decode[OF _ _ md] r
  have *: "1 \<le> m'" "m' \<le> 12" "1 \<le> d'" "d' \<le> daysBefore ! nat m' - daysBefore ! nat (m' - 1)"
    "daysBefore ! nat (m' - 1) + d' - 1 = ?day" by simp_all
  have "m = (if ?day < 31 then 1 else if ?day < 59 then 2 else if ?day < 90 then 3 else if ?day < 120 then 4
     else if ?day < 151 then 5 else if ?day < 181 then 6 else if ?day < 212 then 7 else if ?day < 243 then 8
     else if ?day < 273 then 9 else if ?day < 304 then 10 else if ?day < 334 then 11 else 12)"
    using assms by (intro month_of_day_unique) simp_all
  moreover have "m' = (if ?day < 31 then 1 else if ?day < 59 then 2 else if ?day < 90 then 3 else if ?day < 120 then 4
     else if ?day < 151 then 5 else if ?day < 181 then 6 else if ?day < 212 then 7 else if ?day < 243 then 8
     else if ?day < 273 then 9 else if ?day < 304 then 10 else if ?day < 334 then 11 else 12)"
    using * by (intro month_of_day_unique) simp_all
  ultimately have "m' = m" by simp
  with *(5) md show ?thesis by simp
qed

lemma dayNumber_valid:
  assumes "1 \<le> m" "m \<le> 12"
  shows "dayNumber y m d = yearStart y + daysBefore ! nat (m - 1)
     + (if isLeap y \<and> 3 \<le> m then 1 else 0) + (d - 1)"
proof -
  have "(m - 1) div 12 = 0" "(m - 1) mod 12 + 1 = m" using assms by simp_all
  then show ?thesis by (simp add: dayNumber_def Let_def)
qed

lemma dayNumber_day: "dayNumber y m (d + n) = dayNumber y m d + n"
  by (simp add: dayNumber_def Let_def)

lemma dayNumber_norm: "dayNumber y m d = dayNumber (y + (m - 1) div 12) ((m - 1) mod 12 + 1) d"
  by (simp add: dayNumber_def Let_def)

lemma daysIn_bounds:
  assumes "1 \<le> m" "m \<le> 12"
  shows "28 \<le> daysIn m y \<and> daysIn m y \<le> 31"
  using month_cases[OF assms] by (elim disjE) (simp_all add: daysIn_def db)

lemma yday_range:
  assumes "1 \<le> m" "m \<le> 12" "1 \<le> d" "d \<le> daysIn m y"
  shows "0 \<le> daysBefore ! nat (m - 1) + (if isLeap y \<and> 3 \<le> m then 1 else 0) + (d - 1)
    \<and> daysBefore ! nat (m - 1) + (if isLeap y \<and> 3 \<le> m then 1 else 0) + (d - 1) < yearLen y"
  using month_cases[OF assms(1,2)] assms(3,4)
  by (elim disjE) (simp_all add: daysIn_def db yearLen_def split: if_splits)

lemma civilDate_dayNumber:
  assumes "1 \<le> m" "m \<le> 12" "1 \<le> d" "d \<le> daysIn m y"
  shows "civilDate (dayNumber y m d) = (y, m, d)"
proof -
  define yd where "yd = daysBefore ! nat (m - 1) + (if isLeap y \<and> 3 \<le> m then 1 else 0) + (d - 1)"
  have D: "dayNumber y m d = yearStart y + yd"
    unfolding yd_def dayNumber_valid[OF assms(1,2)] by simp
  have r: "0 \<le> yd" "yd < yearLen y" using yday_range[OF assms] unfolding yd_def by simp_all
  have ay: "civilYear (dayNumber y m d) = (y, yd)" unfolding D by (rule civilYear_yearStart[OF r])
  show ?thesis
  proof (cases "isLeap y \<and> 2 \<le> m")
    case False
    then have yd: "yd = daysBefore ! nat (m - 1) + d - 1" unfolding yd_def by auto
    have dd: "d \<le> daysBefore ! nat m - daysBefore ! nat (m - 1)"
      using assms(4) False unfolding daysIn_def by (auto split: if_splits)
    have lt: "isLeap y \<Longrightarrow> yd < 59"
      using False assms(1,3,4) unfolding yd daysIn_def by (cases "m = 1") (auto simp: db)
    have "monthDay yd = (m, d)" unfolding yd by (rule monthDay_encode[OF assms(1,2,3) dd])
    then show ?thesis using lt by (auto simp: civilDate_def ay Let_def)
  next
    case True
    then have L: "isLeap y" and m2: "2 \<le> m" by simp_all
    show ?thesis
    proof (cases "m = 2")
      case True
      then have yd: "yd = 31 + d - 1" unfolding yd_def by (simp add: db)
      show ?thesis
      proof (cases "d = 29")
        case True
        then show ?thesis using L \<open>m = 2\<close> yd ay by (simp add: civilDate_def)
      next
        case False
        then have d28: "d \<le> 28" using assms(4) L \<open>m = 2\<close> by (simp add: daysIn_def)
        then have dd: "d \<le> daysBefore ! nat m - daysBefore ! nat (m - 1)" using \<open>m = 2\<close> by (simp add: db)
        have "monthDay (daysBefore ! nat (m - 1) + d - 1) = (m, d)" by (rule monthDay_encode[OF assms(1,2,3) dd])
        then have "monthDay yd = (m, d)" unfolding yd using \<open>m = 2\<close> by (simp add: db)
        moreover have "yd < 59" using d28 yd by simp
        ultimately show ?thesis by (simp add: civilDate_def ay Let_def)
      qed
    next
      case False
      then have m3: "3 \<le> m" using m2 by simp
      then have yd: "yd = daysBefore ! nat (m - 1) + d" unfolding yd_def using L by simp
      have dd: "d \<le> daysBefore ! nat m - daysBefore ! nat (m - 1)"
        using assms(4) False unfolding daysIn_def by simp
      have md: "monthDay (yd - 1) = (m, d)" using monthDay_encode[OF assms(1,2,3) dd] unfolding yd by simp
      have "59 < yd" using month_cases[OF assms(1,2)] m3 assms(3) unfolding yd
        by (elim disjE) (simp_all add: db)
      then show ?thesis using L md by (simp add: civilDate_def ay Let_def)
    qed
  qed
qed

lemma dayNumber_civilDate:
  assumes "civilDate t = (y, m, d)"
  shows "dayNumber y m d = t \<and> 1 \<le> m \<and> m \<le> 12 \<and> 1 \<le> d \<and> d \<le> daysIn m y"
proof -
  obtain y' yd where ay: "civilYear t = (y', yd)" by (cases "civilYear t")
  from yearStart_civilYear[OF ay]
  have t: "yearStart y' + yd = t" and r: "0 \<le> yd" "yd < yearLen y'" by simp_all
  have y': "y' = y" using assms unfolding civilDate_def ay by (simp add: Let_def split: if_splits prod.splits)
  note t = t[unfolded y'] and r = r[unfolded y'] and ay = ay[unfolded y']
  show ?thesis
  proof (cases "isLeap y \<and> yd = 59")
    case True
    then have "m = 2" "d = 29" using assms unfolding civilDate_def ay by simp_all
    then show ?thesis using True t by (simp add: dayNumber_valid db daysIn_def)
  next
    case False
    define day where "day = (if isLeap y \<and> yd > 59 then yd - 1 else yd)"
    have md: "monthDay day = (m, d)"
      using assms False unfolding civilDate_def ay day_def by (simp add: Let_def split: prod.splits if_splits)
    have dr: "0 \<le> day" "day < 365" using r False unfolding day_def yearLen_def by (auto split: if_splits)
    from monthDay_decode[OF dr md]
    have *: "1 \<le> m" "m \<le> 12" "1 \<le> d" "d \<le> daysBefore ! nat m - daysBefore ! nat (m - 1)"
      "daysBefore ! nat (m - 1) + d - 1 = day" by simp_all
    have lo: "daysBefore ! nat (m - 1) \<le> day" and hi: "day < daysBefore ! nat m" using * by linarith+
    note mu = month_of_day_unique[OF *(1,2) lo hi]
    have m3: "3 \<le> m \<longleftrightarrow> 59 \<le> day" using mu by (auto split: if_splits)
    have adj: "(if isLeap y \<and> 3 \<le> m then 1 else 0) + day = yd"
      using False m3 unfolding day_def by (auto split: if_splits)
    have "dayNumber y m d = t" unfolding dayNumber_valid[OF *(1,2)] using adj *(5) t by linarith
    moreover have "d \<le> daysIn m y"
    proof (cases "m = 2 \<and> isLeap y")
      case True
      then have "d \<le> 28" using *(4) by (simp add: db)
      then show ?thesis using True by (simp add: daysIn_def)
    next
      case False
      then show ?thesis using *(4) by (auto simp: daysIn_def)
    qed
    ultimately show ?thesis using * by simp
  qed
qed

lemma dayNumber_add:
  assumes "civilDate t = (y, m, d)"
  shows "dayNumber y m (d + n) = t + n"
proof -
  from dayNumber_civilDate[OF assms] have "dayNumber y m d = t" by simp
  then show ?thesis by (simp add: dayNumber_day)
qed

lemma yearStart_Suc: "yearStart (y + 1) = yearStart y + yearLen y"
proof -
  obtain a b c e where y: "y = 400 * a + 100 * b + 4 * c + e + 1"
    and bs: "0 \<le> b" "b < 4" "0 \<le> c" "c < 25" "0 \<le> e" "e < 4"
    by (rule year_digits)
  have L: "isLeap y \<longleftrightarrow> e = 3 \<and> (c < 24 \<or> b = 3)" unfolding y by (rule isLeap_digits[OF bs])
  have D: "yearStart y = 146097 * a + 36524 * b + 1461 * c + 365 * e"
    unfolding y by (rule dse_digits[OF bs])
  consider (e) "e < 3" | (c) "e = 3" "c < 24" | (b) "e = 3" "c = 24" "b < 3" | (a) "e = 3" "c = 24" "b = 3"
    using bs by linarith
  then show ?thesis
  proof cases
    case e
    have "y + 1 = 400 * a + 100 * b + 4 * c + (e + 1) + 1" unfolding y by simp
    moreover have "yearStart (400 * a + 100 * b + 4 * c + (e + 1) + 1) = 146097 * a + 36524 * b + 1461 * c + 365 * (e + 1)"
      using bs e by (intro dse_digits) simp_all
    ultimately show ?thesis using D L e by (simp add: yearLen_def)
  next
    case c
    have "y + 1 = 400 * a + 100 * b + 4 * (c + 1) + 0 + 1" unfolding y using c by simp
    moreover have "yearStart (400 * a + 100 * b + 4 * (c + 1) + 0 + 1) = 146097 * a + 36524 * b + 1461 * (c + 1) + 365 * 0"
      using bs c by (intro dse_digits) simp_all
    ultimately show ?thesis using D L c by (simp add: yearLen_def)
  next
    case b
    have "y + 1 = 400 * a + 100 * (b + 1) + 4 * 0 + 0 + 1" unfolding y using b by simp
    moreover have "yearStart (400 * a + 100 * (b + 1) + 4 * 0 + 0 + 1) = 146097 * a + 36524 * (b + 1) + 1461 * 0 + 365 * 0"
      using bs b by (intro dse_digits) simp_all
    ultimately show ?thesis using D L b by (simp add: yearLen_def)
  next
    case a
    have "y + 1 = 400 * (a + 1) + 100 * 0 + 4 * 0 + 0 + 1" unfolding y using a by simp
    moreover have "yearStart (400 * (a + 1) + 100 * 0 + 4 * 0 + 0 + 1) = 146097 * (a + 1) + 36524 * 0 + 1461 * 0 + 365 * 0"
      by (intro dse_digits) simp_all
    ultimately show ?thesis using D L a by (simp add: yearLen_def)
  qed
qed

lemma dayNumber_13: "dayNumber y 13 d = dayNumber (y + 1) 1 d"
  by (simp add: dayNumber_def Let_def)

lemma dayNumber_0: "dayNumber y 0 d = dayNumber (y - 1) 12 d"
  by (simp add: dayNumber_def Let_def)

lemma dayNumber_next_month:
  assumes "1 \<le> m" "m \<le> 12"
  shows "dayNumber y (m + 1) 1 = dayNumber y m 1 + daysIn m y"
proof (cases "m = 12")
  case True
  have "dayNumber y 13 1 = yearStart (y + 1)" unfolding dayNumber_13 by (simp add: dayNumber_valid db)
  moreover have "dayNumber y 12 1 = yearStart y + 334 + (if isLeap y then 1 else 0)"
    by (simp add: dayNumber_valid db)
  ultimately show ?thesis using True by (simp add: yearStart_Suc yearLen_def daysIn_def db)
next
  case False
  then have m: "1 \<le> m + 1" "m + 1 \<le> 12" using assms by simp_all
  show ?thesis unfolding dayNumber_valid[OF m] dayNumber_valid[OF assms]
    using month_cases[OF assms] False
    by (elim disjE) (simp_all add: daysIn_def db)
qed

lemma dayNumber_month_end:
  assumes "1 \<le> m" "m \<le> 12"
  shows "dayNumber y (m + 1) 0 = dayNumber y m (daysIn m y)"
proof -
  have "dayNumber y (m + 1) 0 = dayNumber y (m + 1) 1 - 1" using dayNumber_day[of y "m + 1" 1 "-1"] by simp
  also have "\<dots> = dayNumber y m 1 + daysIn m y - 1" by (simp add: dayNumber_next_month[OF assms])
  also have "\<dots> = dayNumber y m (daysIn m y)" using dayNumber_day[of y m 1 "daysIn m y - 1"] by simp
  finally show ?thesis .
qed

lemma dayNumber_shift: "dayNumber y m d = dayNumber y m 1 + (d - 1)"
  by (simp add: dayNumber_def Let_def)

lemma monthOf_dayNumber:
  assumes "1 \<le> m" "m \<le> 12" "1 \<le> d" "d \<le> daysIn m y"
  shows "monthOf (dayNumber y m d) = m"
  by (simp add: monthOf_def civilDate_dayNumber[OF assms])

text \<open>Within six days before the first and seven days after the last day of a month, a
  day has that month exactly when it lies between the two.\<close>

lemma monthOf_window:
  assumes m: "1 \<le> m" "m \<le> 12"
    and w: "dayNumber y m 1 - 6 \<le> t" "t \<le> dayNumber y (m + 1) 0 + 7"
  shows "monthOf t = m \<longleftrightarrow> dayNumber y m 1 \<le> t \<and> t \<le> dayNumber y (m + 1) 0"
proof -
  let ?first = "dayNumber y m 1" and ?last = "dayNumber y (m + 1) 0"
  have "dayNumber y m (daysIn m y) = ?first + (daysIn m y - 1)" by (rule dayNumber_shift)
  then have last: "?last = ?first + daysIn m y - 1"
    using dayNumber_month_end[OF m] by simp
  note db' = daysIn_bounds
  consider (before) "t < ?first" | (inside) "?first \<le> t" "t \<le> ?last" | (after) "?last < t" by linarith
  then show ?thesis
  proof cases
    case inside
    have "dayNumber y m (t - ?first + 1) = ?first + (t - ?first + 1 - 1)" by (rule dayNumber_shift)
    then have "t = dayNumber y m (t - ?first + 1)" by linarith
    moreover have "monthOf (dayNumber y m (t - ?first + 1)) = m"
      using inside last by (intro monthOf_dayNumber m) simp_all
    ultimately show ?thesis using inside by simp
  next
    case after
    define yn where "yn = y + m div 12"
    define mn where "mn = m mod 12 + 1"
    have mn: "1 \<le> mn" "mn \<le> 12" "mn \<noteq> m" unfolding mn_def
      using month_cases[OF m] by (elim disjE; simp)+
    have nx: "dayNumber y (m + 1) d = dayNumber yn mn d" for d
      using dayNumber_norm[of y "m + 1" d] by (simp add: yn_def mn_def)
    have "dayNumber yn mn (t - ?last) = dayNumber yn mn 1 + (t - ?last - 1)" by (rule dayNumber_shift)
    moreover have "dayNumber yn mn 0 = dayNumber yn mn 1 + (0 - 1)" by (rule dayNumber_shift)
    ultimately have "t = dayNumber yn mn (t - ?last)" using nx[of 0] by linarith
    moreover have "monthOf (dayNumber yn mn (t - ?last)) = mn"
      using after w(2) db'[OF mn(1,2), of yn] by (intro monthOf_dayNumber mn) simp_all
    ultimately show ?thesis using after mn(3) by simp
  next
    case before
    define yp where "yp = y + (m - 2) div 12"
    define mp where "mp = (m - 2) mod 12 + 1"
    have mp: "1 \<le> mp" "mp \<le> 12" "mp \<noteq> m" unfolding mp_def
      using month_cases[OF m] by (elim disjE; simp)+
    have "(mp + 1 - 1) div 12 = (if m = 1 then 1 else 0)" "(mp + 1 - 1) mod 12 + 1 = m" "(m - 2) div 12 = (if m = 1 then -1 else 0)"
      unfolding mp_def using month_cases[OF m] by (elim disjE; simp)+
    then have nx: "dayNumber yp (mp + 1) d = dayNumber y m d" for d
      using dayNumber_norm[of yp "mp + 1" d] by (simp add: yp_def split: if_splits)
    have "dayNumber y m 0 = ?first + (0 - 1)" by (rule dayNumber_shift)
    then have e: "dayNumber yp mp (daysIn mp yp) = ?first - 1"
      using dayNumber_month_end[OF mp(1,2), of yp] nx[of 0] by simp
    have "dayNumber yp mp (daysIn mp yp - (?first - 1 - t)) = dayNumber yp mp 1 + (daysIn mp yp - (?first - 1 - t) - 1)"
      by (rule dayNumber_shift)
    moreover have "dayNumber yp mp (daysIn mp yp) = dayNumber yp mp 1 + (daysIn mp yp - 1)" by (rule dayNumber_shift)
    ultimately have "t = dayNumber yp mp (daysIn mp yp - (?first - 1 - t))" using e by linarith
    moreover have "monthOf (dayNumber yp mp (daysIn mp yp - (?first - 1 - t))) = mp"
      using before w(1) db'[OF mp(1,2), of yp] by (intro monthOf_dayNumber mp) simp_all
    ultimately show ?thesis using before mp(3) by simp
  qed
qed

lemma weekdayOf_add7: "weekdayOf (t + 7) = weekdayOf t"
  unfolding weekdayOf_def by presburger

lemma monthStart_Monday: "weekdayOf (monthStart y m) = 1"
  unfolding monthStart_def weekdayOf_def by presburger

lemma monthStart_le: "monthStart y m \<le> dayNumber y m 1" "dayNumber y m 1 - 6 \<le> monthStart y m"
  unfolding monthStart_def by simp_all

lemma first_le_last:
  assumes "1 \<le> m" "m \<le> 12"
  shows "dayNumber y m 1 \<le> dayNumber y (m + 1) 0"
proof -
  have "dayNumber y m (daysIn m y) = dayNumber y m 1 + (daysIn m y - 1)" by (rule dayNumber_shift)
  then show ?thesis using dayNumber_month_end[OF assms, of y] daysIn_bounds[OF assms, of y] by simp
qed

lemma upto_append:
  fixes a b f :: int
  assumes "a \<le> f" "f \<le> b + 1"
  shows "[a..b] = [a..f - 1] @ [f..b]"
proof (cases "a = f")
  case True
  then show ?thesis by simp
next
  case False
  then have "a \<le> f - 1" "f - 1 \<le> b" using assms by simp_all
  from upto_split2[OF this] show ?thesis by simp
qed

lemma weekOf_upto: "d = c + 6 \<Longrightarrow> [c..d] = weekOf c"
  by (simp add: weekOf_def upto_rec1)

lemma concat_weeks: "concat (map (\<lambda>j. weekOf (s + 7 * int j)) [0..<n]) = [s..s + 7 * int n - 1]"
proof (induction n)
  case 0
  then show ?case by simp
next
  case (Suc n)
  have sp: "[s..s + 7 * int (Suc n) - 1] = [s..s + 7 * int n - 1] @ [s + 7 * int n..s + 7 * int (Suc n) - 1]"
    by (rule upto_append) simp_all
  have W: "[s + 7 * int n..s + 7 * int (Suc n) - 1] = weekOf (s + 7 * int n)"
    by (rule weekOf_upto) simp
  have "concat (map (\<lambda>j. weekOf (s + 7 * int j)) [0..<Suc n])
      = concat (map (\<lambda>j. weekOf (s + 7 * int j)) [0..<n]) @ weekOf (s + 7 * int n)" by simp
  also have "\<dots> = [s..s + 7 * int n - 1] @ [s + 7 * int n..s + 7 * int (Suc n) - 1]"
    unfolding Suc.IH W ..
  also have "\<dots> = [s..s + 7 * int (Suc n) - 1]" by (rule sp[symmetric])
  finally show ?case .
qed

lemma filter_upto_window:
  fixes a b f l :: int
  assumes "a \<le> f" "l \<le> b" "f \<le> l + 1" "\<And>t. a \<le> t \<Longrightarrow> t \<le> b \<Longrightarrow> P t \<longleftrightarrow> f \<le> t \<and> t \<le> l"
  shows "filter P [a..b] = [f..l]"
proof -
  have "[a..b] = [a..f - 1] @ [f..b]" using assms(1,2,3) by (intro upto_append) simp_all
  moreover have "[f..b] = [f..l + 1 - 1] @ [l + 1..b]" using assms(1,2,3) by (intro upto_append) simp_all
  ultimately have "[a..b] = [a..f - 1] @ [f..l] @ [l + 1..b]" by simp
  moreover have "filter P [a..f - 1] = []" using assms by (auto simp: filter_empty_conv)
  moreover have "filter P [l + 1..b] = []" using assms by (auto simp: filter_empty_conv)
  moreover have "filter P [f..l] = [f..l]" using assms by (auto simp: filter_id_conv)
  ultimately show ?thesis by simp
qed

lemma map_dayNumber_upto: "map (dayNumber y m) [1..n] = [dayNumber y m 1..dayNumber y m 1 + n - 1]"
proof (cases "1 \<le> n")
  case False
  then show ?thesis by simp
next
  case True
  then show ?thesis
  proof (induction "nat n" arbitrary: n)
    case 0
    then show ?case by simp
  next
    case (Suc k)
    show ?case
    proof (cases "n = 1")
      case True
      then show ?thesis by simp
    next
      case False
      then have n: "1 \<le> n - 1" "k = nat (n - 1)" using Suc by simp_all
      have "[1..n] = [1..n - 1] @ [n]" using n(1) by (simp add: upto_rec2)
      moreover have "[dayNumber y m 1..dayNumber y m 1 + n - 1] = [dayNumber y m 1..dayNumber y m 1 + (n - 1) - 1] @ [dayNumber y m 1 + n - 1]"
        using n(1) upto_rec2[of "dayNumber y m 1" "dayNumber y m 1 + n - 1"] by (simp add: algebra_simps)
      moreover have "dayNumber y m n = dayNumber y m 1 + n - 1" using dayNumber_shift[of y m n] by simp
      ultimately show ?thesis using Suc.hyps(1)[OF n(2) n(1)] by simp
    qed
  qed
qed

lemma weeks_end:
  assumes "1 \<le> m" "m \<le> 12"
  shows "dayNumber y (m + 1) 0 \<le> monthStart y m + 7 * int (weekCount y m) - 1"
    "monthStart y m + 7 * int (weekCount y m) - 1 \<le> dayNumber y (m + 1) 0 + 6"
proof -
  let ?s = "monthStart y m" and ?l = "dayNumber y (m + 1) 0"
  have sl: "?s \<le> ?l" using monthStart_le(1)[of y m] first_le_last[OF assms, of y] by simp
  define q where "q = (?l - ?s) div 7"
  have k: "int (weekCount y m) = q + 1" unfolding weekCount_def q_def using sl by simp
  have q: "7 * q \<le> ?l - ?s" "?l - ?s < 7 * q + 7" unfolding q_def by linarith+
  show "?l \<le> ?s + 7 * int (weekCount y m) - 1" unfolding k using q(2) by simp
  show "?s + 7 * int (weekCount y m) - 1 \<le> ?l + 6" unfolding k using q(1) by simp
qed


lemma inMonth_days:
  assumes "1 \<le> m" "m \<le> 12"
  shows "filter (\<lambda>t. monthOf t = m) [monthStart y m..monthStart y m + 7 * int (weekCount y m) - 1]
    = map (dayNumber y m) [1..daysIn m y]"
proof -
  let ?s = "monthStart y m" and ?f = "dayNumber y m 1" and ?l = "dayNumber y (m + 1) 0"
  have l: "?l = ?f + daysIn m y - 1"
    using dayNumber_month_end[OF assms(1,2), of y] dayNumber_shift[of y m "daysIn m y"] by simp
  have "filter (\<lambda>t. monthOf t = m) [?s..?s + 7 * int (weekCount y m) - 1] = [?f..?l]"
  proof (rule filter_upto_window)
    show "?s \<le> ?f" by (rule monthStart_le)
    show "?l \<le> ?s + 7 * int (weekCount y m) - 1" by (rule weeks_end[OF assms(1,2)])
    show "?f \<le> ?l + 1" using first_le_last[OF assms(1,2), of y] by simp
    fix t assume "?s \<le> t" "t \<le> ?s + 7 * int (weekCount y m) - 1"
    then have "?f - 6 \<le> t" "t \<le> ?l + 7"
      using monthStart_le(2)[of y m] weeks_end(2)[OF assms(1,2), of y] by linarith+
    then show "monthOf t = m \<longleftrightarrow> ?f \<le> t \<and> t \<le> ?l"
      by (rule monthOf_window[OF assms(1,2)])
  qed
  then show ?thesis unfolding map_dayNumber_upto l by simp
qed

lemma isLeap_dvd: "isLeap y \<longleftrightarrow> 4 dvd y \<and> (\<not> 100 dvd y \<or> 400 dvd y)"
  by (simp add: isLeap_def mod_eq_0_iff_dvd)

lemma weekCount_bounds:
  assumes "1 \<le> m" "m \<le> 12"
  shows "4 \<le> weekCount y m \<and> weekCount y m \<le> 6"
proof -
  let ?s = "monthStart y m" and ?f = "dayNumber y m 1" and ?l = "dayNumber y (m + 1) 0"
  have l: "?l = ?f + daysIn m y - 1"
    using dayNumber_month_end[OF assms, of y] dayNumber_shift[of y m "daysIn m y"] by simp
  define x where "x = ?l - ?s"
  have "27 \<le> x" "x \<le> 36"
    unfolding x_def l using monthStart_le[of y m] daysIn_bounds[OF assms, of y] by linarith+
  then have "3 \<le> x div 7" "x div 7 \<le> 5" by linarith+
  then show ?thesis unfolding weekCount_def x_def[symmetric] by linarith
qed

lemma month_dates_distinct: "distinct (map (dayNumber y m) [1..n])"
  unfolding map_dayNumber_upto by simp

lemma digitVal_digit: "n < 10 \<Longrightarrow> digitVal (digit n) = n"
  by (simp add: digitVal_def digit_def)

lemma atoi_snoc: "atoi (s @ [c]) = 10 * atoi s + digitVal c"
  by (simp add: atoi_def)

lemma atoi_itoa: "atoi (itoa n) = n"
proof (induction n rule: itoa.induct)
  case (1 n)
  show ?case
  proof (cases "n < 10")
    case True
    then show ?thesis by (subst itoa.simps) (simp add: atoi_def digitVal_digit)
  next
    case False
    then have "atoi (itoa n) = 10 * atoi (itoa (n div 10)) + digitVal (digit (n mod 10))"
      by (subst itoa.simps) (simp add: atoi_snoc)
    then show ?thesis using 1[OF False] by (simp add: digitVal_digit)
  qed
qed

lemma atoi_zeros: "atoi (replicate k (CHR ''0'') @ s) = atoi s"
proof -
  have "foldl (\<lambda>v c. 10 * v + digitVal c) 0 (replicate k (CHR ''0'')) = 0"
    by (induction k) (simp_all add: digitVal_def)
  then show ?thesis by (simp add: atoi_def)
qed

lemma itoa_no_minus: "CHR ''-'' \<notin> set (itoa n)"
proof (induction n rule: itoa.induct)
  case (1 n)
  have d: "digit k \<noteq> CHR ''-''" if "k < 10" for k
  proof
    assume "digit k = CHR ''-''"
    then have "(of_char (digit k) :: nat) = of_char (CHR ''-'')" by simp
    then show False using that by (simp add: digit_def)
  qed
  show ?case
  proof (cases "n < 10")
    case True
    then show ?thesis using d[of n] by (subst itoa.simps) auto
  next
    case False
    then show ?thesis using 1[OF False] d[of "n mod 10"] by (subst itoa.simps) auto
  qed
qed

lemma itoa_nonempty: "itoa n \<noteq> []"
  by (subst itoa.simps) simp

lemma parseInt_appendInt: "parseInt (appendInt x w) = x"
proof (cases "x < 0")
  case True
  then show ?thesis by (simp add: appendInt_def parseInt_def Let_def atoi_zeros atoi_itoa)
next
  case False
  let ?s = "replicate (w - length (itoa (nat \<bar>x\<bar>))) CHR ''0'' @ itoa (nat \<bar>x\<bar>)"
  have ne: "?s \<noteq> []" using itoa_nonempty by simp
  have "hd ?s \<noteq> CHR ''-''"
  proof
    assume "hd ?s = CHR ''-''"
    then have "CHR ''-'' \<in> set ?s" using ne hd_in_set by metis
    then show False using itoa_no_minus by auto
  qed
  moreover have "atoi ?s = nat \<bar>x\<bar>" by (simp add: atoi_zeros atoi_itoa)
  moreover obtain c r where cr: "?s = c # r" using ne by (cases ?s) auto
  moreover have "appendInt x w = ?s" using False by (simp add: appendInt_def Let_def)
  ultimately show ?thesis using False by (simp add: parseInt_def)
qed

lemma appendInt_inj: "appendInt x w = appendInt y w \<Longrightarrow> x = y"
  by (metis parseInt_appendInt)

lemma appendInt_2: "0 \<le> x \<Longrightarrow> x < 100 \<Longrightarrow> length (appendInt x 2) = 2"
proof -
  assume a: "0 \<le> x" "x < 100"
  define n where "n = nat \<bar>x\<bar>"
  have n: "n < 100" using a by (simp add: n_def)
  have "length (itoa n) = (if n < 10 then 1 else 2)"
  proof (cases "n < 10")
    case True
    then show ?thesis by (subst itoa.simps) simp
  next
    case False
    then have "n div 10 < 10" using n by simp
    then have "itoa (n div 10) = [digit (n div 10)]" by (subst itoa.simps) simp
    then show ?thesis using False by (subst itoa.simps) simp
  qed
  then show ?thesis using a by (auto simp: appendInt_def Let_def n_def)
qed


section \<open>Package time within the range of the second counter\<close>

lemma u64_id: "0 \<le> x \<Longrightarrow> x < 18446744073709551616 \<Longrightarrow> u64 x = x"
  by (simp add: u64_def)

lemma i64_id: "- 9223372036854775808 \<le> x \<Longrightarrow> x < 9223372036854775808 \<Longrightarrow> i64 x = x"
  by (simp add: i64_def)

lemma u64_mod:
  "u64 (u64 a + b) = u64 (a + b)" "u64 (a + u64 b) = u64 (a + b)"
  "u64 (u64 a * b) = u64 (a * b)" "u64 (i64 a) = u64 a"
  by (simp_all add: u64_def i64_def mod_simps)

lemma u64_i64_add: "u64 (i64 a + b) = u64 (a + b)"
proof -
  have "u64 (i64 a + b) = u64 (u64 (i64 a) + b)" by (rule u64_mod(1)[symmetric])
  also have "u64 (i64 a) = u64 a" by (rule u64_mod(4))
  also have "u64 (u64 a + b) = u64 (a + b)" by (rule u64_mod(1))
  finally show ?thesis .
qed

lemma i64_mod:
  "i64 (i64 a + b) = i64 (a + b)" "i64 (u64 a) = i64 a"
  by (simp_all add: u64_def i64_def mod_simps ac_simps)

lemma norm_id: "0 \<le> lo \<Longrightarrow> lo < base \<Longrightarrow> norm hi lo base = (hi, lo)"
  by (simp add: norm_def)

lemma norm_12: "norm hi 12 12 = (i64 (hi + 1), 0)"
  by (simp add: norm_def i64_def)

lemma yearStart_mono: "y \<le> y' \<Longrightarrow> yearStart y \<le> yearStart y'"
proof (induction y' rule: int_ge_induct)
  case base
  show ?case by simp
next
  case (step i)
  have "yearStart (i + 1) = yearStart i + yearLen i" by (rule yearStart_Suc)
  then show ?case using step.IH by (simp add: yearLen_def split: if_splits)
qed

lemma yearStart_values:
  "yearStart (- 292277022399) = - 106751990353932"
  "yearStart 292277024627 = 106751991166961"
  "yearStart 292277024628 = 106751991167326"
  by (simp_all add: yearStart_def Let_def)

lemma daysSinceEpoch_digits:
  assumes "0 \<le> A" "A \<le> 1461385118" "0 \<le> b" "b < 4" "0 \<le> c" "c < 25" "0 \<le> e" "e < 4"
  shows "daysSinceEpoch (400 * A + 100 * b + 4 * c + e - 292277022399)
    = 146097 * A + 36524 * b + 1461 * c + 365 * e"
proof -
  let ?R = "400 * A + (100 * b + (4 * c + e))"
  let ?R1 = "100 * b + (4 * c + e)"
  let ?R2 = "4 * c + e"
  have e1: "i64 (i64 (400 * A + 100 * b + 4 * c + e - 292277022399) - absoluteZeroYear) = ?R"
  proof -
    have a: "i64 (400 * A + 100 * b + 4 * c + e - 292277022399) = 400 * A + 100 * b + 4 * c + e - 292277022399"
      using assms by (intro i64_id) linarith+
    have b: "400 * A + 100 * b + 4 * c + e - 292277022399 - absoluteZeroYear = 400 * A + 100 * b + 4 * c + e"
      by (simp add: absoluteZeroYear_def)
    have c: "i64 (400 * A + 100 * b + 4 * c + e) = 400 * A + 100 * b + 4 * c + e"
      using assms by (intro i64_id) linarith+
    show ?thesis unfolding a b c by simp
  qed
  have e2: "u64 ?R = ?R" using assms by (intro u64_id) linarith+
  have e3: "?R div 400 = A" using assms by linarith
  have e4: "u64 (400 * A) = 400 * A" using assms by (intro u64_id) linarith+
  have e5: "?R - 400 * A = ?R1" by simp
  have e6: "u64 ?R1 = ?R1" using assms by (intro u64_id) linarith+
  have e7: "u64 (146097 * A) = 146097 * A" using assms by (intro u64_id) linarith+
  have e8: "?R1 div 100 = b" using assms by linarith
  have e9: "u64 (100 * b) = 100 * b" using assms by (intro u64_id) linarith+
  have e10: "?R1 - 100 * b = ?R2" by simp
  have e11: "u64 ?R2 = ?R2" using assms by (intro u64_id) linarith+
  have e12: "u64 (36524 * b) = 36524 * b" using assms by (intro u64_id) linarith+
  have e13: "u64 (146097 * A + 36524 * b) = 146097 * A + 36524 * b" using assms by (intro u64_id) linarith+
  have e14: "?R2 div 4 = c" using assms by linarith
  have e15: "u64 (4 * c) = 4 * c" using assms by (intro u64_id) linarith+
  have e16: "?R2 - 4 * c = e" by simp
  have e17: "u64 e = e" using assms by (intro u64_id) linarith+
  have e18: "u64 (1461 * c) = 1461 * c" using assms by (intro u64_id) linarith+
  have e19: "u64 (146097 * A + 36524 * b + 1461 * c) = 146097 * A + 36524 * b + 1461 * c"
    using assms by (intro u64_id) linarith+
  have e20: "u64 (365 * e) = 365 * e" using assms by (intro u64_id) linarith+
  have e21: "u64 (146097 * A + 36524 * b + 1461 * c + 365 * e) = 146097 * A + 36524 * b + 1461 * c + 365 * e"
    using assms by (intro u64_id) linarith+
  show ?thesis
    unfolding daysSinceEpoch_def Let_def e1 e2 e3 e4 e5 e6 e7 e8 e9 e10 e11 e12 e13 e14 e15 e16 e17 e18 e19 e20 e21
    by (rule refl)
qed

lemma daysSinceEpoch_eq:
  assumes "- 292277022399 \<le> y" "y \<le> 292277024628"
  shows "daysSinceEpoch y = yearStart y + 106751990353932"
proof -
  obtain a b c e where y: "y = 400 * a + 100 * b + 4 * c + e + 1"
    and bs: "0 \<le> b" "b < 4" "0 \<le> c" "c < 25" "0 \<le> e" "e < 4"
    by (rule year_digits)
  define A where "A = a + 730692556"
  have A: "0 \<le> A" "A \<le> 1461385118" using assms bs unfolding y A_def by linarith+
  have "y = 400 * A + 100 * b + 4 * c + e - 292277022399" unfolding y A_def by simp
  then have "daysSinceEpoch y = 146097 * A + 36524 * b + 1461 * c + 365 * e"
    using daysSinceEpoch_digits[OF A bs] by simp
  moreover have "yearStart y = 146097 * a + 36524 * b + 1461 * c + 365 * e"
    unfolding y by (rule dse_digits[OF bs])
  ultimately show ?thesis by (simp add: A_def)
qed

lemma absYear_digits_go:
  assumes "0 \<le> A" "A \<le> 1461385118" "0 \<le> b" "b < 4" "0 \<le> c" "c < 25" "0 \<le> e" "e < 4" "0 \<le> yd"
    and "yd < 365 \<or> (yd = 365 \<and> e = 3 \<and> (c < 24 \<or> b = 3))"
  shows "absYear (86400 * (146097 * A + 36524 * b + 1461 * c + 365 * e + yd))
    = (400 * A + 100 * b + 4 * c + e - 292277022399, yd)"
proof -
  let ?t = "146097 * A + 36524 * b + 1461 * c + 365 * e + yd"
  let ?d = "36524 * b + 1461 * c + 365 * e + yd"
  let ?d1 = "1461 * c + 365 * e + yd"
  let ?d2 = "365 * e + yd"
  have p0: "86400 * ?t div 86400 = ?t" by simp
  have q0: "?t div 146097 = A" using assms by linarith
  have u0: "u64 (400 * A) = 400 * A" using assms by (intro u64_id) linarith+
  have u1: "u64 (146097 * A) = 146097 * A" using assms by (intro u64_id) linarith+
  have d0: "?t - 146097 * A = ?d" by simp
  have u2: "u64 ?d = ?d" using assms by (intro u64_id) linarith+
  have "?d div 36524 = b \<or> (?d div 36524 = 4 \<and> b = 3)" using assms by linarith
  then have q1: "?d div 36524 - ?d div 36524 div 4 = b" using assms(3,4) by (rule nshift)
  have u3: "u64 b = b" using assms by (intro u64_id) linarith+
  have u4: "u64 (100 * b) = 100 * b" using assms by (intro u64_id) linarith+
  have u5: "u64 (400 * A + 100 * b) = 400 * A + 100 * b" using assms by (intro u64_id) linarith+
  have u6: "u64 (36524 * b) = 36524 * b" using assms by (intro u64_id) linarith+
  have d1: "?d - 36524 * b = ?d1" by simp
  have u7: "u64 ?d1 = ?d1" using assms by (intro u64_id) linarith+
  have q2: "?d1 div 1461 = c" using assms by linarith
  have u8: "u64 (4 * c) = 4 * c" using assms by (intro u64_id) linarith+
  have u9: "u64 (400 * A + 100 * b + 4 * c) = 400 * A + 100 * b + 4 * c" using assms by (intro u64_id) linarith+
  have u10: "u64 (1461 * c) = 1461 * c" using assms by (intro u64_id) linarith+
  have d2: "?d1 - 1461 * c = ?d2" by simp
  have u11: "u64 ?d2 = ?d2" using assms by (intro u64_id) linarith+
  have "?d2 div 365 = e \<or> (?d2 div 365 = 4 \<and> e = 3)" using assms by linarith
  then have q3: "?d2 div 365 - ?d2 div 365 div 4 = e" using assms(7,8) by (rule nshift)
  have u12: "u64 e = e" using assms by (intro u64_id) linarith+
  have u13: "u64 (400 * A + 100 * b + 4 * c + e) = 400 * A + 100 * b + 4 * c + e" using assms by (intro u64_id) linarith+
  have u14: "u64 (365 * e) = 365 * e" using assms by (intro u64_id) linarith+
  have d3: "?d2 - 365 * e = yd" by simp
  have u15: "u64 yd = yd" using assms by (intro u64_id) linarith+
  have i1: "i64 (400 * A + 100 * b + 4 * c + e) = 400 * A + 100 * b + 4 * c + e" using assms by (intro i64_id) linarith+
  have i2: "i64 (400 * A + 100 * b + 4 * c + e + absoluteZeroYear) = 400 * A + 100 * b + 4 * c + e - 292277022399"
    unfolding absoluteZeroYear_def using assms i64_id[of "400 * A + 100 * b + 4 * c + e - 292277022399"] by simp
  show ?thesis
    unfolding absYear_def Let_def p0 q0 u0 u1 d0 u2 q1 u3 u4 u5 u6 d1 u7 q2 u8 u9 u10 d2 u11 q3 u12 u13 u14 d3 u15 i1 i2
    by (rule refl)
qed

lemma civilYear_bounds:
  assumes "civilYear t = (y, yd)" "dayOK t"
  shows "- 292277022399 \<le> y \<and> y \<le> 292277024627"
proof -
  from yearStart_civilYear[OF assms(1)] have t: "yearStart y + yd = t" "0 \<le> yd" "yd < yearLen y" by simp_all
  have lo: "yearStart y \<le> t" using t by simp
  have hi: "t < yearStart (y + 1)" using t by (simp add: yearStart_Suc)
  show ?thesis
  proof (rule ccontr)
    assume "\<not> ?thesis"
    then consider "y + 1 \<le> - 292277022399" | "292277024628 \<le> y" by linarith
    then show False
    proof cases
      case 1
      from yearStart_mono[OF 1] have "yearStart (y + 1) \<le> - 106751990353932" by (simp add: yearStart_values)
      with hi assms(2) show False by (simp add: dayOK_def)
    next
      case 2
      from yearStart_mono[OF 2] have "106751991167326 \<le> yearStart y" by (simp add: yearStart_values)
      with lo assms(2) show False by (simp add: dayOK_def)
    qed
  qed
qed

lemma absYear_eq:
  assumes "dayOK t"
  shows "absYear (86400 * t + 9223371966579724800) = civilYear t"
proof -
  obtain y yd where cy: "civilYear t = (y, yd)" by (cases "civilYear t")
  from yearStart_civilYear[OF cy] have t: "yearStart y + yd = t" and r: "0 \<le> yd" "yd < yearLen y" by simp_all
  from civilYear_bounds[OF cy assms] have yb: "- 292277022399 \<le> y" "y \<le> 292277024627" by simp_all
  obtain a b c e where y: "y = 400 * a + 100 * b + 4 * c + e + 1"
    and bs: "0 \<le> b" "b < 4" "0 \<le> c" "c < 25" "0 \<le> e" "e < 4"
    by (rule year_digits)
  define A where "A = a + 730692556"
  have A: "0 \<le> A" "A \<le> 1461385118" using yb bs unfolding y A_def by linarith+
  have leap: "yd < 365 \<or> (yd = 365 \<and> e = 3 \<and> (c < 24 \<or> b = 3))"
    using r(2) isLeap_digits[OF bs, of a] unfolding yearLen_def y by (auto split: if_splits)
  have ys: "yearStart y = 146097 * a + 36524 * b + 1461 * c + 365 * e"
    unfolding y by (rule dse_digits[OF bs])
  have "86400 * t + 9223371966579724800 = 86400 * (146097 * A + 36524 * b + 1461 * c + 365 * e + yd)"
    using t ys by (simp add: A_def)
  then have "absYear (86400 * t + 9223371966579724800) = (400 * A + 100 * b + 4 * c + e - 292277022399, yd)"
    using absYear_digits_go[OF A bs r(1) leap] by (simp only:)
  also have "\<dots> = (y, yd)" unfolding y A_def by simp
  finally show ?thesis using cy by simp
qed

lemma absDate_eq:
  assumes "dayOK t"
  shows "absDate (86400 * t + 9223371966579724800) = civilDate t"
  unfolding absDate_def civilDate_def absYear_eq[OF assms] by (rule refl)

lemma Time_abs_instant:
  assumes "dayOK t"
  shows "Time_abs (instant t) = 86400 * t + 9223371966579724800"
proof -
  have "Time_abs (instant t) = u64 (instant t + internalToUnix + (unixToInternal + internalToAbsolute))"
    unfolding Time_abs_def u64_mod u64_i64_add by (rule refl)
  also have "instant t + internalToUnix + (unixToInternal + internalToAbsolute) = 86400 * t + 9223371966579724800"
    by (simp add: instant_def internalToUnix_def unixToInternal_def internalToAbsolute_def absoluteToInternal_def)
  also have "u64 (86400 * t + 9223371966579724800) = 86400 * t + 9223371966579724800"
    using assms unfolding dayOK_def by (intro u64_id) linarith+
  finally show ?thesis .
qed

lemma absClock_midnight: "absClock (86400 * t + 9223371966579724800) = (0, 0, 0)"
proof -
  have "86400 * t + 9223371966579724800 = (t + 106751990353932) * 86400" by simp
  then have "(86400 * t + 9223371966579724800) mod 86400 = 0" by (simp only: mod_mult_self2_is_0)
  then show ?thesis by (simp add: absClock_def)
qed

lemma absWeekday_eq:
  assumes "dayOK t"
  shows "absWeekday (86400 * t + 9223371966579724800) = weekdayOf t"
proof -
  define X where "X = t + 1 + 15250284336276 * 7"
  have e: "86400 * t + 9223371966579724800 + Monday * 86400 = 86400 * t + 9223371966579811200"
    by (simp add: Monday_def)
  have x: "86400 * t + 9223371966579811200 = 86400 * X" by (simp add: X_def)
  have "u64 (86400 * t + 9223371966579811200) = 86400 * t + 9223371966579811200"
    using assms unfolding dayOK_def by (intro u64_id) linarith+
  then have u: "u64 (86400 * X) = 86400 * X" unfolding x .
  have "86400 * X mod 604800 = 86400 * (X mod 7)"
    using mult_mod_right[of 86400 X 7] by simp
  then have "86400 * X mod 604800 div 86400 = X mod 7" by simp
  moreover have "X mod 7 = (t + 1) mod 7" unfolding X_def by (simp only: mod_mult_self1)
  ultimately show ?thesis unfolding absWeekday_def e u x weekdayOf_def by simp
qed

lemma Time_Date_instant: "dayOK t \<Longrightarrow> Time_Date (instant t) = civilDate t"
  by (simp add: Time_Date_def Time_abs_instant absDate_eq)

lemma Time_Clock_instant: "dayOK t \<Longrightarrow> Time_Clock (instant t) = (0, 0, 0)"
  by (simp add: Time_Clock_def Time_abs_instant absClock_midnight)

lemma Weekday_instant: "dayOK t \<Longrightarrow> Weekday (instant t) = weekdayOf t"
  by (simp add: Weekday_def Time_abs_instant absWeekday_eq)

lemma Time_Month_instant: "dayOK t \<Longrightarrow> Time_Month (instant t) = monthOf t"
  by (simp add: Time_Month_def monthOf_def Time_Date_instant)

lemma civilDate_year: "civilDate t = (y, m, d) \<Longrightarrow> \<exists>yd. civilYear t = (y, yd)"
  by (auto simp: civilDate_def Let_def split: prod.splits if_splits)

lemma civilDate_bounds:
  assumes "civilDate t = (y, m, d)" "dayOK t"
  shows "- 292277022399 \<le> y" "y \<le> 292277024627" "1 \<le> m" "m \<le> 12" "1 \<le> d" "d \<le> daysIn m y"
    "dayNumber y m d = t"
proof -
  from civilDate_year[OF assms(1)] obtain yd where "civilYear t = (y, yd)" by blast
  from civilYear_bounds[OF this assms(2)] show "- 292277022399 \<le> y" "y \<le> 292277024627" by simp_all
  from dayNumber_civilDate[OF assms(1)]
  show "1 \<le> m" "m \<le> 12" "1 \<le> d" "d \<le> daysIn m y" "dayNumber y m d = t" by simp_all
qed

lemma yearStart_bounds:
  assumes "- 292277022399 \<le> y" "y \<le> 292277024628"
  shows "- 106751990353932 \<le> yearStart y" "yearStart y \<le> 106751991167326"
  using yearStart_mono[OF assms(1)] yearStart_mono[OF assms(2)] by (simp_all add: yearStart_values)

lemma Date_midnight:
  assumes y: "- 292277022399 \<le> y" "y \<le> 292277024628" and m: "1 \<le> m" "m \<le> 12"
    and ok: "dayOK (dayNumber y m d)"
  shows "DateUTC y m d = instant (dayNumber y m d)"
proof -
  define L :: int where "L = (if isLeap y \<and> 3 \<le> m then 1 else 0)"
  define B where "B = daysBefore ! nat (m - 1)"
  define D1 where "D1 = yearStart y + 106751990353932 + B"
  have dn: "dayNumber y m d = yearStart y + B + L + (d - 1)"
    unfolding B_def L_def by (rule dayNumber_valid[OF m])
  note ys = yearStart_bounds[OF y]
  have Bb: "0 \<le> B" "B \<le> 334" unfolding B_def using month_cases[OF m] by (elim disjE; simp add: db)+
  have Lb: "0 \<le> L" "L \<le> 1" unfolding L_def by simp_all
  have dr: "- 106751990353932 \<le> dayNumber y m d" "dayNumber y m d \<le> 106751991167300"
    using ok by (simp_all add: dayOK_def)
  have dd: "- 213503981521600 \<le> d" "d \<le> 213503981521600" using dr ys Bb Lb unfolding dn by linarith+
  have n1: "norm y (i64 (m - 1)) 12 = (y, m - 1)" using m by (simp add: i64_id norm_id)
  have n2: "norm 0 0 60 = (0, 0)" by (simp add: norm_id)
  have n3: "norm d 0 24 = (d, 0)" by (simp add: norm_id)
  have m1: "i64 (m - 1 + 1) = m" using m by (simp add: i64_id)
  have dse: "daysSinceEpoch y = yearStart y + 106751990353932" by (rule daysSinceEpoch_eq[OF y])
  have i1: "i64 (d - 1) = d - 1" using dd by (intro i64_id) linarith+
  have s1: "u64 B = B" using Bb by (intro u64_id) linarith+
  have s2: "u64 (yearStart y + 106751990353932 + B) = D1" unfolding D1_def using ys Bb by (intro u64_id) linarith+
  have s3: "(if isLeap y \<and> 3 \<le> m then u64 (D1 + 1) else D1) = D1 + L"
  proof -
    have "u64 (D1 + 1) = D1 + 1" unfolding D1_def using ys Bb by (intro u64_id) linarith+
    then show ?thesis by (simp add: L_def)
  qed
  have s4: "u64 (D1 + L + u64 (d - 1)) = dayNumber y m d + 106751990353932"
  proof -
    have "u64 (D1 + L + u64 (d - 1)) = u64 (dayNumber y m d + 106751990353932)"
      unfolding u64_mod dn D1_def by (simp add: algebra_simps)
    also have "\<dots> = dayNumber y m d + 106751990353932" using dr by (intro u64_id) linarith+
    finally show ?thesis .
  qed
  have s5: "u64 ((dayNumber y m d + 106751990353932) * 86400) = 86400 * dayNumber y m d + 9223371966579724800"
  proof -
    have "(dayNumber y m d + 106751990353932) * 86400 = 86400 * dayNumber y m d + 9223371966579724800" by simp
    moreover have "u64 (86400 * dayNumber y m d + 9223371966579724800) = 86400 * dayNumber y m d + 9223371966579724800"
      using dr by (intro u64_id) linarith+
    ultimately show ?thesis by (simp only:)
  qed
  have s6: "u64 (i64 (i64 (i64 (0 * 3600) + i64 (0 * 60)) + 0)) = 0" by (simp add: i64_def u64_def)
  have "u64 (86400 * dayNumber y m d + 9223371966579724800) = 86400 * dayNumber y m d + 9223371966579724800"
    using dr by (intro u64_id) linarith+
  then have s7: "u64 (86400 * dayNumber y m d + 9223371966579724800 + 0) = 86400 * dayNumber y m d + 9223371966579724800"
    by simp
  have s8: "i64 (i64 (i64 (86400 * dayNumber y m d + 9223371966579724800) + (absoluteToInternal + internalToUnix)) + unixToInternal)
      = 86400 * dayNumber y m d"
  proof -
    have "i64 (i64 (i64 (86400 * dayNumber y m d + 9223371966579724800) + (absoluteToInternal + internalToUnix)) + unixToInternal)
        = i64 (86400 * dayNumber y m d + 9223371966579724800 + (absoluteToInternal + internalToUnix) + unixToInternal)"
      unfolding i64_mod by (rule refl)
    also have "86400 * dayNumber y m d + 9223371966579724800 + (absoluteToInternal + internalToUnix) + unixToInternal
        = 86400 * dayNumber y m d"
      by (simp add: absoluteToInternal_def internalToUnix_def unixToInternal_def)
    also have "i64 (86400 * dayNumber y m d) = 86400 * dayNumber y m d" using dr by (intro i64_id) linarith+
    finally show ?thesis .
  qed
  show ?thesis
    unfolding Date_def Let_def n1 prod.case m1 n2 n3 dse i1 B_def[symmetric]
    unfolding s1 s2 s3 s4 s5 s6 s7 s8 instant_def
    by (rule refl)
qed

lemma Date_13:
  assumes "- 292277022400 \<le> y" "y \<le> 292277024627"
  shows "DateUTC y 13 d = DateUTC (y + 1) 1 d"
proof -
  have i: "i64 (y + 1) = y + 1" using assms by (intro i64_id) linarith+
  show ?thesis by (simp add: Date_def norm_12 norm_id i i64_id)
qed

lemma Date_month:
  assumes y: "- 292277022399 \<le> y" "y \<le> 292277024627" and m: "1 \<le> m" "m \<le> 13"
    and ok: "dayOK (dayNumber y m d)"
  shows "DateUTC y m d = instant (dayNumber y m d)"
proof (cases "m = 13")
  case False
  then have "m \<le> 12" using m by simp
  then show ?thesis using y m(1) ok by (intro Date_midnight) simp_all
next
  case True
  have dn: "dayNumber y 13 d = dayNumber (y + 1) 1 d" by (rule dayNumber_13)
  have "DateUTC y 13 d = DateUTC (y + 1) 1 d" using y by (intro Date_13) simp_all
  also have "\<dots> = instant (dayNumber (y + 1) 1 d)"
    using y ok True by (intro Date_midnight) (simp_all add: dn)
  finally show ?thesis using True by (simp add: dn)
qed

lemma AddDate_days:
  assumes "dayOK t" "dayOK (t + n)"
  shows "AddDate (instant t) 0 0 n = instant (t + n)"
proof -
  obtain y m d where c: "civilDate t = (y, m, d)" by (cases "civilDate t") auto
  note b = civilDate_bounds[OF c assms(1)]
  have dn: "dayNumber y m (d + n) = t + n" by (rule dayNumber_add[OF c])
  have d31: "d \<le> 31" using b(6) daysIn_bounds[OF b(3,4), of y] by simp
  have nb: "- 213503981521232 \<le> n" "n \<le> 213503981521232"
    using assms unfolding dayOK_def by linarith+
  have i1: "i64 (d + n) = d + n" using b(5) d31 nb by (intro i64_id) linarith+
  have i2: "i64 y = y" using b(1,2) by (intro i64_id) linarith+
  have i3: "i64 m = m" using b(3,4) by (intro i64_id) linarith+
  have "AddDate (instant t) 0 0 n = DateUTC y m (d + n)"
    by (simp add: AddDate_def Time_Date_instant[OF assms(1)] Time_Clock_instant[OF assms(1)] c i1 i2 i3)
  also have "\<dots> = instant (dayNumber y m (d + n))"
    using b assms(2) by (intro Date_midnight) (simp_all add: dn)
  finally show ?thesis by (simp add: dn)
qed

lemma monthStart_div: "monthStart y m = 7 * (dayNumber y m 1 div 7)"
  unfolding monthStart_def weekdayOf_def by presburger

lemma year_end:
  assumes "1 \<le> m" "m \<le> 12"
  shows "yearStart y \<le> dayNumber y m 1" "dayNumber y (m + 1) 0 < yearStart (y + 1)"
proof -
  have b: "1 \<le> daysIn m y" using daysIn_bounds[OF assms, of y] by simp
  from yday_range[OF assms b order_refl]
  have r: "0 \<le> daysBefore ! nat (m - 1) + (if isLeap y \<and> 3 \<le> m then 1 else 0) + (daysIn m y - 1)"
    "daysBefore ! nat (m - 1) + (if isLeap y \<and> 3 \<le> m then 1 else 0) + (daysIn m y - 1) < yearLen y"
    by simp_all
  have e: "dayNumber y (m + 1) 0 = yearStart y + daysBefore ! nat (m - 1)
     + (if isLeap y \<and> 3 \<le> m then 1 else 0) + (daysIn m y - 1)"
    unfolding dayNumber_month_end[OF assms] by (rule dayNumber_valid[OF assms])
  show "dayNumber y (m + 1) 0 < yearStart (y + 1)" unfolding e yearStart_Suc using r(2) by linarith
  have "0 \<le> daysBefore ! nat (m - 1)" using month_cases[OF assms] by (elim disjE; simp add: db)+
  then show "yearStart y \<le> dayNumber y m 1" unfolding dayNumber_valid[OF assms] by simp
qed

lemma month_days_ok:
  assumes Y: "yearOK y" and m: "1 \<le> m" "m \<le> 12"
    and t: "monthStart y m \<le> t" "t \<le> dayNumber y (m + 1) 0 + 7"
  shows "dayOK t"
proof -
  have yb: "- 292277022399 \<le> y" "y + 1 \<le> 292277024627" using Y by (simp_all add: yearOK_def)
  have "- 106751990353932 \<le> yearStart y" using yearStart_mono[OF yb(1)] by (simp add: yearStart_values)
  then have "- 106751990353932 \<le> dayNumber y m 1" using year_end(1)[OF m, of y] by linarith
  then have "- 15250284336276 \<le> dayNumber y m 1 div 7" by linarith
  then have lo: "- 106751990353932 \<le> monthStart y m" unfolding monthStart_div by linarith
  have "yearStart (y + 1) \<le> 106751991166961" using yearStart_mono[OF yb(2)] by (simp add: yearStart_values)
  then have hi: "dayNumber y (m + 1) 0 + 7 \<le> 106751991167300" using year_end(2)[OF m, of y] by linarith
  show ?thesis using lo hi t by (simp add: dayOK_def)
qed

lemma yearOK_bounds: "yearOK y \<Longrightarrow> - 292277022399 \<le> y \<and> y \<le> 292277024627"
  by (simp add: yearOK_def)

lemma weekFill_run:
  assumes "\<And>i. 0 \<le> i \<Longrightarrow> i \<le> 7 \<Longrightarrow> dayOK (c + i)"
  shows "weekFill 0 (replicate 7 0) (instant c) = (map instant (weekOf c), instant (c + 7))"
proof -
  have A0: "AddDate (instant c) 0 0 1 = instant (c + 1)"
    using AddDate_days[of c 1] assms[of 0] assms[of 1] by simp
  have A1: "AddDate (instant (c + 1)) 0 0 1 = instant (c + 2)"
  proof -
    have e: "c + 1 + 1 = c + 2" by simp
    have 1: "dayOK (c + 1)" by (rule assms) simp_all
    have 2: "dayOK (c + 1 + 1)" unfolding e by (rule assms) simp_all
    from AddDate_days[OF 1 2] show ?thesis unfolding e .
  qed
  have A2: "AddDate (instant (c + 2)) 0 0 1 = instant (c + 3)"
  proof -
    have e: "c + 2 + 1 = c + 3" by simp
    have 1: "dayOK (c + 2)" by (rule assms) simp_all
    have 2: "dayOK (c + 2 + 1)" unfolding e by (rule assms) simp_all
    from AddDate_days[OF 1 2] show ?thesis unfolding e .
  qed
  have A3: "AddDate (instant (c + 3)) 0 0 1 = instant (c + 4)"
  proof -
    have e: "c + 3 + 1 = c + 4" by simp
    have 1: "dayOK (c + 3)" by (rule assms) simp_all
    have 2: "dayOK (c + 3 + 1)" unfolding e by (rule assms) simp_all
    from AddDate_days[OF 1 2] show ?thesis unfolding e .
  qed
  have A4: "AddDate (instant (c + 4)) 0 0 1 = instant (c + 5)"
  proof -
    have e: "c + 4 + 1 = c + 5" by simp
    have 1: "dayOK (c + 4)" by (rule assms) simp_all
    have 2: "dayOK (c + 4 + 1)" unfolding e by (rule assms) simp_all
    from AddDate_days[OF 1 2] show ?thesis unfolding e .
  qed
  have A5: "AddDate (instant (c + 5)) 0 0 1 = instant (c + 6)"
  proof -
    have e: "c + 5 + 1 = c + 6" by simp
    have 1: "dayOK (c + 5)" by (rule assms) simp_all
    have 2: "dayOK (c + 5 + 1)" unfolding e by (rule assms) simp_all
    from AddDate_days[OF 1 2] show ?thesis unfolding e .
  qed
  have A6: "AddDate (instant (c + 6)) 0 0 1 = instant (c + 7)"
  proof -
    have e: "c + 6 + 1 = c + 7" by simp
    have 1: "dayOK (c + 6)" by (rule assms) simp_all
    have 2: "dayOK (c + 6 + 1)" unfolding e by (rule assms) simp_all
    from AddDate_days[OF 1 2] show ?thesis unfolding e .
  qed
  note A = A0 A1 A2 A3 A4 A5 A6
  show ?thesis
    by (simp add: weekFill.simps weekOf_def A numeral_eq_Suc)
qed

lemma weeksLoop_run:
  assumes "weekdayOf c = 1" "c + 7 * int k \<le> l" "l < c + 7 * int k + 7"
    and ok: "\<And>t. c \<le> t \<Longrightarrow> t \<le> l + 7 \<Longrightarrow> dayOK t"
  shows "weeksLoop (instant l) (instant c) acc
    = Some (acc @ map (\<lambda>j. map instant (weekOf (c + 7 * int j))) [0..<Suc k])"
  using assms
proof (induction k arbitrary: c acc)
  case 0
  have wf: "weekFill 0 (replicate 7 0) (instant c) = (map instant (weekOf c), instant (c + 7))"
    by (rule weekFill_run) (use 0 in auto)
  have wd: "Weekday (instant (c + 7)) = Monday"
    using 0 by (simp add: Weekday_instant weekdayOf_add7 Monday_def)
  have af: "After (instant (c + 7)) (instant l)" using 0 by (simp add: After_def instant_def)
  show ?case
    by (subst weeksLoop.simps) (simp add: wf wd af)
next
  case (Suc k)
  have wf: "weekFill 0 (replicate 7 0) (instant c) = (map instant (weekOf c), instant (c + 7))"
    by (rule weekFill_run) (use Suc.prems in auto)
  have 1: "weekdayOf (c + 7) = 1" using Suc.prems(1) by (simp add: weekdayOf_add7)
  have 2: "c + 7 + 7 * int k \<le> l" "l < c + 7 + 7 * int k + 7" using Suc.prems(2,3) by simp_all
  have 3: "\<And>t. c + 7 \<le> t \<Longrightarrow> t \<le> l + 7 \<Longrightarrow> dayOK t" using Suc.prems(4) by simp
  have nb: "\<not> After (instant (c + 7)) (instant l)" using 2(1) by (simp add: After_def instant_def)
  have "weeksLoop (instant l) (instant c) acc = weeksLoop (instant l) (instant (c + 7)) (acc @ [map instant (weekOf c)])"
    by (subst weeksLoop.simps) (simp add: wf nb)
  also have "\<dots> = Some ((acc @ [map instant (weekOf c)]) @ map (\<lambda>j. map instant (weekOf (c + 7 + 7 * int j))) [0..<Suc k])"
    by (rule Suc.IH[OF 1 2 3])
  also have "(acc @ [map instant (weekOf c)]) @ map (\<lambda>j. map instant (weekOf (c + 7 + 7 * int j))) [0..<Suc k]
      = acc @ map (\<lambda>j. map instant (weekOf (c + 7 * int j))) [0..<Suc (Suc k)]"
  proof -
    have A: "map (\<lambda>j. map instant (weekOf (c + 7 * int j))) [0..<Suc (Suc k)]
        = map instant (weekOf (c + 7 * int 0)) # map (\<lambda>j. map instant (weekOf (c + 7 * int (Suc j)))) [0..<Suc k]"
      by (rule map_upt_Suc)
    have fe: "(\<lambda>j. map instant (weekOf (c + 7 * int (Suc j)))) = (\<lambda>j. map instant (weekOf (c + 7 + 7 * int j)))"
      by (rule ext) (simp add: algebra_simps)
    show ?thesis unfolding A fe by simp
  qed
  finally show ?case .
qed

lemma monthWeeks_eq:
  assumes "yearOK y" "1 \<le> m" "m \<le> 12"
  shows "monthWeeks y m
    = Some (map (\<lambda>j. map instant (weekOf (monthStart y m + 7 * int j))) [0..<weekCount y m])"
proof -
  let ?s = "monthStart y m" and ?f = "dayNumber y m 1" and ?l = "dayNumber y (m + 1) 0"
  note yb = yearOK_bounds[OF assms(1)]
  have ok: "dayOK t" if "?s \<le> t" "t \<le> ?l + 7" for t
    using that by (rule month_days_ok[OF assms])
  have fl: "?f \<le> ?l" by (rule first_le_last[OF assms(2,3)])
  have sl: "?s \<le> ?l" using monthStart_le(1)[of y m] fl by simp
  have first: "DateUTC y m 1 = instant ?f"
    using yb assms(2,3) monthStart_le(1)[of y m] fl by (intro Date_month ok) simp_all
  have last: "DateUTC y (m + 1) 0 = instant ?l"
    using yb assms(2,3) sl by (intro Date_month ok) simp_all
  have wd: "Weekday (instant ?f) = weekdayOf ?f"
    using monthStart_le(1)[of y m] fl by (intro Weekday_instant ok) simp_all
  have start: "AddDate (instant ?f) 0 0 (- ((weekdayOf ?f + 6) mod 7)) = instant ?s"
  proof -
    have "AddDate (instant ?f) 0 0 (- ((weekdayOf ?f + 6) mod 7)) = instant (?f + - ((weekdayOf ?f + 6) mod 7))"
      using monthStart_le(1)[of y m] fl sl by (intro AddDate_days ok) (simp_all add: monthStart_def)
    then show ?thesis by (simp add: monthStart_def)
  qed
  define k where "k = nat ((?l - ?s) div 7)"
  have k: "int k = (?l - ?s) div 7" unfolding k_def using sl by simp
  have b: "?s + 7 * int k \<le> ?l" "?l < ?s + 7 * int k + 7" unfolding k by linarith+
  have "monthWeeks y m = weeksLoop (instant ?l) (instant ?s) []"
    by (simp add: monthWeeks_def Let_def first last wd start)
  also have "\<dots> = Some ([] @ map (\<lambda>j. map instant (weekOf (?s + 7 * int j))) [0..<Suc k])"
    by (rule weeksLoop_run[OF monthStart_Monday b ok])
  finally show ?thesis by (simp add: weekCount_def k_def)
qed

lemma last_eq:
  assumes "1 \<le> m" "m \<le> 12"
  shows "dayNumber y (m + 1) 0 = dayNumber y m 1 + daysIn m y - 1"
  using dayNumber_month_end[OF assms, of y] dayNumber_shift[of y m "daysIn m y"] by simp

lemma DateUTC_window:
  assumes "yearOK y" "1 \<le> m" "m \<le> 12"
    and "monthStart y m \<le> dayNumber y m d" "dayNumber y m d \<le> dayNumber y (m + 1) 0 + 7"
  shows "DateUTC y m d = instant (dayNumber y m d)" "dayOK (dayNumber y m d)"
proof -
  show ok: "dayOK (dayNumber y m d)" by (rule month_days_ok[OF assms])
  show "DateUTC y m d = instant (dayNumber y m d)"
    using yearOK_bounds[OF assms(1)] assms(2,3) ok by (intro Date_month) simp_all
qed

lemma DateUTC_valid:
  assumes "yearOK y" "1 \<le> m" "m \<le> 12" "1 \<le> d" "d \<le> daysIn m y"
  shows "DateUTC y m d = instant (dayNumber y m d)" "dayOK (dayNumber y m d)"
proof -
  have "dayNumber y m d = dayNumber y m 1 + (d - 1)" by (rule dayNumber_shift)
  then have "monthStart y m \<le> dayNumber y m d" "dayNumber y m d \<le> dayNumber y (m + 1) 0 + 7"
    using monthStart_le(1)[of y m] assms(4,5) last_eq[OF assms(2,3), of y] by linarith+
  from DateUTC_window[OF assms(1-3) this]
  show "DateUTC y m d = instant (dayNumber y m d)" "dayOK (dayNumber y m d)" .
qed

lemma Time_Date_Date:
  assumes "yearOK y" "1 \<le> m" "m \<le> 12" "1 \<le> d" "d \<le> daysIn m y"
  shows "Time_Date (DateUTC y m d) = (y, m, d)"
  unfolding DateUTC_valid(1)[OF assms] Time_Date_instant[OF DateUTC_valid(2)[OF assms]]
  by (rule civilDate_dayNumber[OF assms(2-5)])

lemma Time_Month_Date:
  assumes "yearOK y" "1 \<le> m" "m \<le> 12" "1 \<le> d" "d \<le> daysIn m y"
  shows "Time_Month (DateUTC y m d) = m"
  by (simp add: Time_Month_def Time_Date_Date[OF assms])

lemma Date_last:
  assumes "yearOK y" "1 \<le> m" "m \<le> 12"
  shows "DateUTC y (m + 1) 0 = DateUTC y m (daysIn m y)"
proof -
  let ?l = "dayNumber y (m + 1) 0"
  have b: "1 \<le> daysIn m y" using daysIn_bounds[OF assms(2,3), of y] by simp
  have sl: "monthStart y m \<le> ?l"
    using monthStart_le(1)[of y m] first_le_last[OF assms(2,3), of y] by simp
  have ok: "dayOK ?l" using sl by (intro month_days_ok[OF assms]) simp_all
  have "DateUTC y (m + 1) 0 = instant ?l"
    using yearOK_bounds[OF assms(1)] assms(2,3) ok by (intro Date_month) simp_all
  also have "\<dots> = instant (dayNumber y m (daysIn m y))" by (simp only: dayNumber_month_end[OF assms(2,3)])
  also have "\<dots> = DateUTC y m (daysIn m y)" by (rule DateUTC_valid(1)[OF assms b order_refl, symmetric])
  finally show ?thesis .
qed

lemma daysInMonth_eq:
  assumes "yearOK y" "1 \<le> m" "m \<le> 12"
  shows "daysInMonth y m = daysIn m y"
proof -
  have b: "1 \<le> daysIn m y" using daysIn_bounds[OF assms(2,3), of y] by simp
  show ?thesis
    unfolding daysInMonth_def Date_last[OF assms]
    by (simp add: Time_Day_def Time_Date_Date[OF assms b order_refl])
qed

lemma weeks_concat:
  "concat (map (\<lambda>j. map instant (weekOf (s + 7 * int j))) [0..<n]) = map instant [s..s + 7 * int n - 1]"
proof -
  have "concat (map (\<lambda>j. map instant (weekOf (s + 7 * int j))) [0..<n])
      = concat (map (map instant) (map (\<lambda>j. weekOf (s + 7 * int j)) [0..<n]))"
    by (simp add: comp_def)
  also have "\<dots> = map instant (concat (map (\<lambda>j. weekOf (s + 7 * int j)) [0..<n]))"
    by (rule map_concat[symmetric])
  finally show ?thesis by (simp only: concat_weeks)
qed

lemma inMonth_dates:
  assumes "yearOK y" "1 \<le> m" "m \<le> 12" "monthWeeks y m = Some ws"
  shows "filter (\<lambda>t. Time_Month t = m) (concat ws) = map (DateUTC y m) [1..daysIn m y]"
proof -
  let ?s = "monthStart y m" and ?e = "monthStart y m + 7 * int (weekCount y m) - 1"
  have ws: "concat ws = map instant [?s..?e]"
    using assms(4) unfolding monthWeeks_eq[OF assms(1-3)] by (auto simp: weeks_concat)
  have ok: "dayOK t" if "t \<in> set [?s..?e]" for t
    using that weeks_end(2)[OF assms(2,3), of y] by (intro month_days_ok[OF assms(1-3)]) simp_all
  have "filter (\<lambda>t. Time_Month t = m) (map instant [?s..?e])
      = map instant (filter (\<lambda>t. Time_Month (instant t) = m) [?s..?e])"
    by (simp add: filter_map comp_def)
  also have "filter (\<lambda>t. Time_Month (instant t) = m) [?s..?e] = filter (\<lambda>t. monthOf t = m) [?s..?e]"
    by (rule filter_cong[OF refl]) (simp add: Time_Month_instant[OF ok])
  also have "\<dots> = map (dayNumber y m) [1..daysIn m y]" by (rule inMonth_days[OF assms(2,3)])
  also have "map instant (map (dayNumber y m) [1..daysIn m y]) = map (DateUTC y m) [1..daysIn m y]"
    by (simp add: DateUTC_valid(1)[OF assms(1-3)])
  finally show ?thesis unfolding ws .
qed

lemma instant_inj: "instant a = instant b \<Longrightarrow> a = b"
  by (simp add: instant_def)

lemma month_dates_distinct_go:
  assumes "yearOK y" "1 \<le> m" "m \<le> 12"
  shows "distinct (map (DateUTC y m) [1..daysIn m y])"
proof -
  have e: "map (DateUTC y m) [1..daysIn m y] = map instant (map (dayNumber y m) [1..daysIn m y])"
    by (simp add: DateUTC_valid(1)[OF assms(1-3)])
  have "distinct (map instant (map (dayNumber y m) [1..daysIn m y]))"
    using month_dates_distinct[of y m "daysIn m y"]
    by (simp only: distinct_map) (auto simp: inj_on_def dest: instant_inj)
  then show ?thesis unfolding e .
qed

lemma Format_ISO_Date:
  assumes "yearOK y" "1 \<le> m" "m \<le> 12" "1 \<le> d" "d \<le> daysIn m y"
  shows "Format_ISO (DateUTC y m d) = appendInt y 4 @ ''-'' @ appendInt m 2 @ ''-'' @ appendInt d 2"
  by (simp add: Format_ISO_def Time_Date_Date[OF assms])

lemma Format_ISO_Date_inj:
  assumes a: "yearOK y" "1 \<le> m" "m \<le> 12" "1 \<le> d" "d \<le> daysIn m y"
    and b: "yearOK y'" "1 \<le> m'" "m' \<le> 12" "1 \<le> d'" "d' \<le> daysIn m' y'"
    and e: "Format_ISO (DateUTC y m d) = Format_ISO (DateUTC y' m' d')"
  shows "y = y' \<and> m = m' \<and> d = d'"
proof -
  have db: "d < 100" "d' < 100"
    using daysIn_bounds[OF a(2,3), of y] daysIn_bounds[OF b(2,3), of y'] a(5) b(5) by simp_all
  have lm: "length (appendInt m 2) = 2" "length (appendInt m' 2) = 2" using a b by (simp_all add: appendInt_2)
  have ld: "length (appendInt d 2) = 2" "length (appendInt d' 2) = 2" using a b db by (simp_all add: appendInt_2)
  define s1 where "s1 = ''-'' @ appendInt m 2 @ ''-'' @ appendInt d 2"
  define s2 where "s2 = ''-'' @ appendInt m' 2 @ ''-'' @ appendInt d' 2"
  have e': "appendInt y 4 @ s1 = appendInt y' 4 @ s2"
    using e unfolding Format_ISO_Date[OF a] Format_ISO_Date[OF b] by (simp add: s1_def s2_def)
  have l: "length s1 = length s2" by (simp add: s1_def s2_def lm ld)
  from e' l have 1: "appendInt y 4 = appendInt y' 4" and 2: "s1 = s2" by simp_all
  from 2 have 3: "appendInt m 2 = appendInt m' 2" "appendInt d 2 = appendInt d' 2"
    using lm ld by (simp_all add: s1_def s2_def)
  from 1 3 show ?thesis by (auto dest: appendInt_inj)
qed

lemma monthWeeks_nth:
  assumes "yearOK y" "1 \<le> m" "m \<le> 12" "monthWeeks y m = Some ws" "k < length ws"
  shows "length ws = weekCount y m" "ws ! k = map instant (weekOf (monthStart y m + 7 * int k))"
    "\<And>i. 0 \<le> i \<Longrightarrow> i \<le> 6 \<Longrightarrow> dayOK (monthStart y m + 7 * int k + i)"
    "\<And>i. 0 \<le> i \<Longrightarrow> i \<le> 6 \<Longrightarrow> monthStart y m + 7 * int k + i \<le> dayNumber y (m + 1) 0 + 6"
proof -
  have ws: "ws = map (\<lambda>j. map instant (weekOf (monthStart y m + 7 * int j))) [0..<weekCount y m]"
    using assms(4) unfolding monthWeeks_eq[OF assms(1-3)] by simp
  show len: "length ws = weekCount y m" unfolding ws by simp
  show "ws ! k = map instant (weekOf (monthStart y m + 7 * int k))"
    using assms(5) unfolding ws by simp
  have k: "int k + 1 \<le> int (weekCount y m)" using assms(5) len by simp
  show b: "monthStart y m + 7 * int k + i \<le> dayNumber y (m + 1) 0 + 6" if "0 \<le> i" "i \<le> 6" for i
    using weeks_end(2)[OF assms(2,3), of y] k that by linarith
  show "dayOK (monthStart y m + 7 * int k + i)" if "0 \<le> i" "i \<le> 6" for i
    using that b[OF that] by (intro month_days_ok[OF assms(1-3)]) simp_all
qed

section \<open>The claims\<close>

text \<open>
  C1. For every year \<open>Y\<close> from -292277022399 to 292277024626 and every month \<open>M\<close> from 1 to
  12, \<open>monthWeeks Y M\<close> returns a non-empty list of weeks. Date \<open>i\<close> of week \<open>k\<close> is the
  midnight \<open>7 * k + i\<close> days after the start, and the start lies
  \<open>(weekday(first) + 6) mod 7\<close> days before the first of the month: every week has seven
  consecutive dates, begins on a Monday, and follows the week before it without a gap. The
  dates of the weeks that have month \<open>M\<close>, in the order they are listed, are the midnights
  of the days 1, 2, ..., \<open>daysIn M Y\<close> of month \<open>M\<close> of year \<open>Y\<close>: each once, none
  missing. The bounds on the year are those within which the second counter of package
  \<^verbatim>\<open>time\<close> does not overflow on any date of such a week.
\<close>

theorem monthWeeks_covers_month:
  assumes "- 292277022399 \<le> Y" "Y \<le> 292277024626" "1 \<le> M" "M \<le> 12"
  shows "\<exists>ws. monthWeeks Y M = Some ws \<and> ws \<noteq> []
    \<and> (\<forall>k < length ws. length (ws ! k) = 7 \<and> Weekday (ws ! k ! 0) = Monday
          \<and> (\<forall>i < 7. ws ! k ! i
                = DateUTC Y M (1 - (Weekday (DateUTC Y M 1) + 6) mod 7 + 7 * int k + int i)))
    \<and> filter (\<lambda>t. Time_Month t = M) (concat ws) = map (DateUTC Y M) [1..daysIn M Y]
    \<and> map Time_Date (filter (\<lambda>t. Time_Month t = M) (concat ws)) = map (\<lambda>d. (Y, M, d)) [1..daysIn M Y]
    \<and> distinct (filter (\<lambda>t. Time_Month t = M) (concat ws))"
proof -
  have Y: "yearOK Y" using assms(1,2) by (simp add: yearOK_def)
  note m = assms(3,4)
  let ?s = "monthStart Y M" and ?f = "dayNumber Y M 1"
  define ws where "ws = map (\<lambda>j. map instant (weekOf (?s + 7 * int j))) [0..<weekCount Y M]"
  have mw: "monthWeeks Y M = Some ws" unfolding ws_def by (rule monthWeeks_eq[OF Y m])
  have ne: "ws \<noteq> []" unfolding ws_def by (simp add: weekCount_def)
  have f1: "DateUTC Y M 1 = instant ?f" "dayOK ?f"
    using daysIn_bounds[OF m, of Y] by (intro DateUTC_valid[OF Y m]; simp)+
  have off: "(Weekday (DateUTC Y M 1) + 6) mod 7 = ?f - ?s"
    unfolding f1(1) Weekday_instant[OF f1(2)] by (simp add: monthStart_def)
  have wk: "length (ws ! k) = 7 \<and> Weekday (ws ! k ! 0) = Monday
      \<and> (\<forall>i < 7. ws ! k ! i = DateUTC Y M (1 - (Weekday (DateUTC Y M 1) + 6) mod 7 + 7 * int k + int i))"
    if "k < length ws" for k
  proof -
    note n = monthWeeks_nth[OF Y m mw that]
    have ok0: "dayOK (?s + 7 * int k)" using n(3)[of 0] by simp
    have "weekdayOf (?s + 7 * int k) = weekdayOf ?s" unfolding weekdayOf_def by presburger
    then have 1: "Weekday (ws ! k ! 0) = Monday"
      unfolding n(2) by (simp add: weekOf_def Weekday_instant[OF ok0] monthStart_Monday Monday_def)
    have 2: "ws ! k ! i = DateUTC Y M (1 - (Weekday (DateUTC Y M 1) + 6) mod 7 + 7 * int k + int i)"
      if "i < 7" for i
    proof -
      let ?d = "1 - (?f - ?s) + 7 * int k + int i"
      have i: "0 \<le> int i" "int i \<le> 6" using that by simp_all
      have dn: "dayNumber Y M ?d = ?s + 7 * int k + int i"
        using dayNumber_shift[of Y M ?d] by simp
      have lo: "?s \<le> dayNumber Y M ?d" unfolding dn using i by simp
      have hi: "dayNumber Y M ?d \<le> dayNumber Y (M + 1) 0 + 7" unfolding dn using n(4)[OF i] by simp
      have "DateUTC Y M ?d = instant (dayNumber Y M ?d)" by (rule DateUTC_window(1)[OF Y m lo hi])
      then have D: "DateUTC Y M ?d = instant (?s + 7 * int k + int i)" unfolding dn .
      from that have "i = 0 \<or> i = 1 \<or> i = 2 \<or> i = 3 \<or> i = 4 \<or> i = 5 \<or> i = 6" by presburger
      then have "ws ! k ! i = instant (?s + 7 * int k + int i)"
        unfolding n(2) weekOf_def by (elim disjE) simp_all
      then show ?thesis unfolding off D .
    qed
    show ?thesis using 1 2 by (simp add: n(2) weekOf_def)
  qed
  then have A: "\<forall>k < length ws. length (ws ! k) = 7 \<and> Weekday (ws ! k ! 0) = Monday
      \<and> (\<forall>i < 7. ws ! k ! i = DateUTC Y M (1 - (Weekday (DateUTC Y M 1) + 6) mod 7 + 7 * int k + int i))"
    by blast
  note f = inMonth_dates[OF Y m mw]
  have T: "map Time_Date (filter (\<lambda>t. Time_Month t = M) (concat ws)) = map (\<lambda>d. (Y, M, d)) [1..daysIn M Y]"
    unfolding f by (simp add: Time_Date_Date[OF Y m])
  have D: "distinct (filter (\<lambda>t. Time_Month t = M) (concat ws))"
    unfolding f by (rule month_dates_distinct_go[OF Y m])
  from mw ne A f T D show ?thesis by blast
qed

theorem monthWeeks_covers_month_witness:
  "\<exists>ws. monthWeeks 2025 2 = Some ws \<and> ws \<noteq> []
    \<and> (\<forall>k < length ws. length (ws ! k) = 7 \<and> Weekday (ws ! k ! 0) = Monday
          \<and> (\<forall>i < 7. ws ! k ! i
                = DateUTC 2025 2 (1 - (Weekday (DateUTC 2025 2 1) + 6) mod 7 + 7 * int k + int i)))
    \<and> filter (\<lambda>t. Time_Month t = 2) (concat ws) = map (DateUTC 2025 2) [1..daysIn 2 2025]
    \<and> map Time_Date (filter (\<lambda>t. Time_Month t = 2) (concat ws)) = map (\<lambda>d. (2025, 2, d)) [1..daysIn 2 2025]
    \<and> distinct (filter (\<lambda>t. Time_Month t = 2) (concat ws))"
  by (rule monthWeeks_covers_month) simp_all

text \<open>
  Outside that range the statement of C1 fails. For the year 1000000000000 the seconds of
  \<^verbatim>\<open>time.Date\<close> wrap around: \<open>monthWeeks 1000000000000 2\<close> returns five weeks that
  begin on 16 May of the year -169108098508, at 09:59:28, and none of their 35 dates lies
  in a February.
\<close>

theorem monthWeeks_wraps:
  "map_option (\<lambda>ws. (length ws, Time_Date (hd (hd ws)), Time_Clock (hd (hd ws)), map Time_Month (concat ws)))
     (monthWeeks 1000000000000 2)
   = Some (5, (- 169108098508, 5, 16), (9, 59, 28), replicate 16 5 @ replicate 19 6)"
  by code_simp

text \<open>
  C3. For every year \<open>Y\<close> from -292277022399 to 292277024626, the day count that
  \<^verbatim>\<open>monthPage\<close> computes for February,
  \<^verbatim>\<open>time.Date(Y, 2+1, 0, ...).Day()\<close>, is 29 exactly when \<open>Y\<close> is a Gregorian leap year
  (divisible by 4, and not by 100 unless by 400), and 28 otherwise; for December it is 31,
  the month \<open>12 + 1\<close> rolls over to January of \<open>Y + 1\<close>, and day 0 of it is 31 December of
  \<open>Y\<close>. \<^verbatim>\<open>monthWeeks\<close> agrees with the count: its February weeks hold as many February
  dates, and the last December date of its December weeks is that day 0.
\<close>

theorem february_day_count:
  assumes "- 292277022399 \<le> Y" "Y \<le> 292277024626"
  shows "daysInMonth Y 2 = (if 4 dvd Y \<and> (\<not> 100 dvd Y \<or> 400 dvd Y) then 29 else 28)
   \<and> daysInMonth Y 12 = 31
   \<and> DateUTC Y (12 + 1) 0 = DateUTC (Y + 1) 1 0
   \<and> Time_Date (DateUTC Y (12 + 1) 0) = (Y, 12, 31)
   \<and> (\<exists>ws. monthWeeks Y 2 = Some ws
        \<and> int (length (filter (\<lambda>t. Time_Month t = 2) (concat ws))) = daysInMonth Y 2)
   \<and> (\<exists>ws. monthWeeks Y 12 = Some ws
        \<and> last (filter (\<lambda>t. Time_Month t = 12) (concat ws)) = DateUTC Y (12 + 1) 0)"
proof -
  have Y: "yearOK Y" using assms by (simp add: yearOK_def)
  have d2: "daysInMonth Y 2 = daysIn 2 Y" by (rule daysInMonth_eq[OF Y]) simp_all
  then have 1: "daysInMonth Y 2 = (if 4 dvd Y \<and> (\<not> 100 dvd Y \<or> 400 dvd Y) then 29 else 28)"
    by (simp add: daysIn_def isLeap_dvd db)
  have d12: "daysIn 12 Y = 31" by (simp add: daysIn_def db)
  have 2: "daysInMonth Y 12 = 31" using daysInMonth_eq[OF Y, of 12] d12 by simp
  have 3: "DateUTC Y (12 + 1) 0 = DateUTC (Y + 1) 1 0" using assms by (simp add: Date_13)
  have l12: "DateUTC Y (12 + 1) 0 = DateUTC Y 12 31"
    using Date_last[OF Y, of 12] d12 by simp
  have 4: "Time_Date (DateUTC Y (12 + 1) 0) = (Y, 12, 31)"
    unfolding l12 by (rule Time_Date_Date[OF Y]) (simp_all add: d12)
  obtain ws2 where w2: "monthWeeks Y 2 = Some ws2" using monthWeeks_eq[OF Y, of 2] by simp
  have b2: "1 \<le> daysIn 2 Y" using daysIn_bounds[of 2 Y] by simp
  have 5: "int (length (filter (\<lambda>t. Time_Month t = 2) (concat ws2))) = daysInMonth Y 2"
    unfolding inMonth_dates[OF Y _ _ w2, simplified] d2 using b2 by simp
  obtain ws12 where w12: "monthWeeks Y 12 = Some ws12" using monthWeeks_eq[OF Y, of 12] by simp
  have "[1..31] = [1..30] @ [31::int]" by (simp add: upto_rec2)
  then have 6: "last (filter (\<lambda>t. Time_Month t = 12) (concat ws12)) = DateUTC Y (12 + 1) 0"
    unfolding inMonth_dates[OF Y _ _ w12, simplified] d12 l12 by (simp only: map_append last_snoc list.map)
  from 1 2 3 4 5 6 w2 w12 show ?thesis by blast
qed

theorem february_day_count_witness:
  "daysInMonth 2024 2 = 29 \<and> daysInMonth 1900 2 = 28 \<and> daysInMonth 2000 2 = 29 \<and> daysInMonth 2025 2 = 28
   \<and> daysInMonth 2024 12 = 31 \<and> Time_Date (DateUTC 2024 (12 + 1) 0) = (2024, 12, 31)"
  using february_day_count[of 2024, THEN conjunct1] february_day_count[of 1900, THEN conjunct1]
    february_day_count[of 2000, THEN conjunct1] february_day_count[of 2025, THEN conjunct1]
    february_day_count[of 2024, THEN conjunct2, THEN conjunct1]
    february_day_count[of 2024, THEN conjunct2, THEN conjunct2, THEN conjunct2, THEN conjunct1]
  by simp

text \<open>
  Outside that range the statement of C3 fails. The year 1000000000000 is a leap year, but
  \<^verbatim>\<open>time.Date(1000000000000, 3, 0, ...).Day()\<close> is 13, and day 0 of month 13 is
  15 April of the year -169108098507, not a 31 December.
\<close>

theorem february_wraps:
  "daysInMonth 1000000000000 2 = 13 \<and> isLeap 1000000000000
   \<and> Time_Date (DateUTC 1000000000000 (12 + 1) 0) = (- 169108098507, 4, 15)
   \<and> Time_Date (DateUTC (1000000000000 + 1) 1 0) = (- 169108098507, 4, 15)"
  by code_simp

end
